theory Spec2Isabelle
  imports Complex_Main "HOL-Library.Multiset" "HOL-Library.Signed_Division" "HOL-Library.Word"
begin

section \<open>The sliding-window median filter of MedianFilter.hpp\<close>

text \<open>
  The class template \<open>MedianFilter<T, Sum>\<close> keeps three arrays of the window length:
  \<open>data\<close> (the ring buffer of samples), \<open>sizeMap\<close> (for every rank the ring slot holding
  the sample of that rank) and \<open>locationMap\<close> (for every ring slot its rank), together
  with the scalars \<open>medFilterWin\<close>, \<open>medDataPointer\<close>, \<open>oldestDataPoint\<close> and \<open>totalSum\<close>.

  The sample type \<open>T\<close> is the type variable \<open>'a\<close>, the accumulator type \<open>Sum\<close> is \<open>'s\<close>.
  The conversion \<open>(Sum) value\<close> of the source is the parameter \<open>toSum\<close> of the operations
  that convert; it is the identity when both types agree. Where the source subtracts a
  sample from an accumulator value or the other way round, the sample is converted by
  \<open>toSum\<close> and the difference is taken in the accumulator type, as the usual arithmetic
  conversions do for an accumulator type at least as wide as the sample type.

  The constructor and \<open>in\<close> are written over a commutative ring \<open>'s\<close>. At \<open>'w word\<close> this is
  an integer accumulator of \<open>w\<close> bits: the arithmetic is modulo \<open>2 ^ w\<close>, as unsigned C++
  arithmetic is and as the conversion of a promoted result back to a narrower type is;
  overflow of signed arithmetic, undefined in C++, wraps around here as it does on the
  usual targets. At \<open>int\<close> it is an integer accumulator in which nothing overflows.
  A floating-point accumulator is no ring, since every operation rounds; the
  instance \<open>MedianFilter<double, double>\<close> has its own definitions below.

  The arrays are lists. The entries of \<open>sizeMap\<close> and \<open>locationMap\<close> are \<open>uint8_t\<close> in the
  source: they are natural numbers here and every increment and decrement of such an
  entry is written with its reduction modulo 256. The scalars \<open>medFilterWin\<close>,
  \<open>medDataPointer\<close> and \<open>oldestDataPoint\<close> are declared in MedianFilter.h, which is not
  among the sources; they never exceed 255 and are natural numbers here.
  Reading or writing an array outside its bounds is undefined in C++; in every state
  reached from the constructor the invariants \<open>filter_inv\<close> and \<open>mid\<close> below keep the
  indices that the operations use below the array length.
\<close>

record ('a, 's) MedianFilter =
  medFilterWin :: nat
  medDataPointer :: nat
  data :: "'a list"
  sizeMap :: "nat list"
  locationMap :: "nat list"
  oldestDataPoint :: nat
  totalSum :: 's

subsection \<open>Construction\<close>

text \<open>
  Modelled from the spec: the macro \<open>constrain\<close> comes from the Arduino core and is not
  among the sources. The spec says that construction clamps the window size into the
  inclusive range from 3 to 255; the macro is taken as the clamp of its first argument
  between the other two, lower bound tested first.
\<close>

definition constrain :: "int \<Rightarrow> int \<Rightarrow> int \<Rightarrow> int" where
  "constrain amt low high = (if amt < low then low else if amt > high then high else amt)"

text \<open>One round of the initialising loop of the constructor, at index \<open>i\<close>.\<close>

definition init_slot :: "'a \<Rightarrow> nat \<Rightarrow> ('a, 's) MedianFilter \<Rightarrow> ('a, 's) MedianFilter" where
  "init_slot seed i st =
     st\<lparr> sizeMap := (sizeMap st)[i := i],
         locationMap := (locationMap st)[i := i],
         data := (data st)[i := seed] \<rparr>"

text \<open>
  The constructor. \<open>calloc\<close> returns zeroed arrays of \<open>medFilterWin\<close> entries. The loop
  counter is a \<open>uint8_t\<close> running from 0 up to \<open>medFilterWin\<close>, which is at most 255, so
  the counter does not wrap and the loop is the fold over the indices below
  \<open>medFilterWin\<close>.
\<close>

definition MedianFilter :: "('a \<Rightarrow> 's) \<Rightarrow> int \<Rightarrow> 'a \<Rightarrow> ('a :: zero, 's :: comm_ring_1) MedianFilter" where
  "MedianFilter toSum sz seed =
     (let win = nat (constrain sz 3 255);
          st = \<lparr> medFilterWin = win,
                 medDataPointer = drop_bit 1 win,
                 data = replicate win 0,
                 sizeMap = replicate win 0,
                 locationMap = replicate win 0,
                 oldestDataPoint = drop_bit 1 win,
                 totalSum = of_nat win * toSum seed \<rparr>
      in fold (init_slot seed) [0..<win] st)"

subsection \<open>Insertion\<close>

text \<open>
  The left pass of \<open>in\<close>: the loop \<open>for (uint8_t i = locationMap[oldestDataPoint]; i > 0; i--)\<close>.
  The first argument is the loop counter, the flag is \<open>dataMoved\<close>. The four assignments
  of the loop body are made one after the other, each reading the arrays as the previous
  one left them.
\<close>

fun sortLeft :: "nat \<Rightarrow> ('a :: linorder, 's) MedianFilter \<times> bool \<Rightarrow> ('a, 's) MedianFilter \<times> bool" where
  "sortLeft 0 (st, dataMoved) = (st, dataMoved)"
| "sortLeft (Suc n) (st, dataMoved) =
     (if data st ! oldestDataPoint st < data st ! (sizeMap st ! n) then
        let st1 = st\<lparr> sizeMap := (sizeMap st)[Suc n := sizeMap st ! n] \<rparr>;
            st2 = st1\<lparr> locationMap := (locationMap st1)
                     [sizeMap st1 ! n := (locationMap st1 ! (sizeMap st1 ! n) + 1) mod 256] \<rparr>;
            st3 = st2\<lparr> sizeMap := (sizeMap st2)[n := oldestDataPoint st2] \<rparr>;
            st4 = st3\<lparr> locationMap := (locationMap st3)
                     [oldestDataPoint st3 := (locationMap st3 ! oldestDataPoint st3 + 255) mod 256] \<rparr>
        in sortLeft n (st4, True)
      else (st, dataMoved))"

text \<open>
  The right pass: the loop \<open>for (int i = locationMap[oldestDataPoint]; i < rightEdge; i++)\<close>,
  with the loop counter as second argument.
\<close>

function sortRight :: "nat \<Rightarrow> nat \<Rightarrow> ('a :: linorder, 's) MedianFilter \<Rightarrow> ('a, 's) MedianFilter" where
  "sortRight rightEdge i st =
     (if i < rightEdge then
        let n = i + 1 in
        if data st ! oldestDataPoint st > data st ! (sizeMap st ! n) then
          let st1 = st\<lparr> sizeMap := (sizeMap st)[i := sizeMap st ! n] \<rparr>;
              st2 = st1\<lparr> locationMap := (locationMap st1)
                       [sizeMap st1 ! n := (locationMap st1 ! (sizeMap st1 ! n) + 255) mod 256] \<rparr>;
              st3 = st2\<lparr> sizeMap := (sizeMap st2)[n := oldestDataPoint st2] \<rparr>;
              st4 = st3\<lparr> locationMap := (locationMap st3)
                       [oldestDataPoint st3 := (locationMap st3 ! oldestDataPoint st3 + 1) mod 256] \<rparr>
          in sortRight rightEdge (i + 1) st4
        else st
      else st)"
  by pat_completeness auto
termination
  by (relation "measure (\<lambda>(rightEdge, i, st). rightEdge - i)") auto

declare sortRight.simps [simp del]

text \<open>
  The member function \<open>in\<close>. \<open>rightEdge\<close> is the \<open>uint8_t\<close> holding \<open>medFilterWin - 1\<close>.
  The result is the returned sample paired with the state the call leaves behind.
\<close>

definition in' :: "('a \<Rightarrow> 's) \<Rightarrow> 'a \<Rightarrow> ('a :: linorder, 's :: comm_ring_1) MedianFilter
    \<Rightarrow> 'a \<times> ('a, 's) MedianFilter" where
  "in' toSum v st =
     (let rightEdge = (medFilterWin st + 255) mod 256;
          st1 = st\<lparr> totalSum := totalSum st + (toSum v - toSum (data st ! oldestDataPoint st)) \<rparr>;
          st2 = st1\<lparr> data := (data st1)[oldestDataPoint st1 := v] \<rparr>;
          (st3, dataMoved) =
            (if locationMap st2 ! oldestDataPoint st2 > 0
             then sortLeft (locationMap st2 ! oldestDataPoint st2) (st2, False)
             else (st2, False));
          st4 = (if \<not> dataMoved \<and> locationMap st3 ! oldestDataPoint st3 < rightEdge
                 then sortRight rightEdge (locationMap st3 ! oldestDataPoint st3) st3
                 else st3);
          st5 = st4\<lparr> oldestDataPoint := oldestDataPoint st4 + 1 \<rparr>;
          st6 = (if oldestDataPoint st5 = medFilterWin st5 then st5\<lparr> oldestDataPoint := 0 \<rparr> else st5)
      in (data st6 ! (sizeMap st6 ! medDataPointer st6), st6))"

text \<open>The state after feeding a sequence of samples, first sample first.\<close>

definition feed :: "('a \<Rightarrow> 's) \<Rightarrow> 'a list \<Rightarrow> ('a :: linorder, 's :: comm_ring_1) MedianFilter
    \<Rightarrow> ('a, 's) MedianFilter" where
  "feed toSum vs st = fold (\<lambda>v s. snd (in' toSum v s)) vs st"

subsection \<open>Read accessors\<close>

text \<open>
  \<open>out\<close> is embedded in the state-passing style of \<open>in\<close>, since its effect on the state is
  the subject of a property below: the member function is \<open>const\<close> and its body is one
  return statement, so the state it leaves behind is the one it was given. The other
  \<open>const\<close> accessors are functions of the state.
\<close>

definition out :: "('a, 's) MedianFilter \<Rightarrow> 'a \<times> ('a, 's) MedianFilter" where
  "out st = (data st ! (sizeMap st ! medDataPointer st), st)"

definition getMin :: "('a, 's) MedianFilter \<Rightarrow> 'a" where
  "getMin st = data st ! (sizeMap st ! 0)"

definition getMax :: "('a, 's) MedianFilter \<Rightarrow> 'a" where
  "getMax st = data st ! (sizeMap st ! (medFilterWin st - 1))"

text \<open>
  \<open>getMean\<close> divides in the accumulator type, and for an integer accumulator the C++
  division truncates towards zero, which is \<open>sdiv\<close>. \<open>getMean_int\<close> and \<open>getStdDev_int\<close>
  below take the accumulator at \<open>int\<close> and \<open>double\<close> as the reals: they are what the code
  computes as long as no value leaves the range of the accumulator type and the
  rounding of the operations on doubles does not carry the result across an integer.
  The accessors for an accumulator of fixed width and for a floating-point accumulator
  follow further down.
\<close>

definition getMean_int :: "('a, int) MedianFilter \<Rightarrow> int" where
  "getMean_int st = totalSum st sdiv int (medFilterWin st)"

text \<open>The loop of \<open>getStdDev\<close> that sums the squared differences from \<open>mean\<close>.\<close>

definition diffSquareSum :: "('a \<Rightarrow> 's) \<Rightarrow> 's \<Rightarrow> ('a, 's :: comm_ring_1) MedianFilter \<Rightarrow> 's" where
  "diffSquareSum toSum mean st =
     fold (\<lambda>i acc. let diff = toSum (data st ! i) - mean in acc + diff * diff)
       [0..<medFilterWin st] 0"

text \<open>The conversion of a \<open>double\<close> to an integer type, which drops the fraction.\<close>

definition truncate_double :: "real \<Rightarrow> int" where
  "truncate_double x = (if 0 \<le> x then \<lfloor>x\<rfloor> else \<lceil>x\<rceil>)"

text \<open>
  \<open>getStdDev\<close>, with \<open>double\<close> taken as the reals. The quotient by \<open>medFilterWin - 1.0\<close> is
  a division of doubles; 0.5 is added to the quotient and the square root is taken of
  the sum, as the parentheses of the return statement say.
\<close>

definition getStdDev_int :: "('a \<Rightarrow> int) \<Rightarrow> ('a, int) MedianFilter \<Rightarrow> int" where
  "getStdDev_int toSum st =
     (let mean = getMean_int st;
          dss = diffSquareSum toSum mean st
      in truncate_double (sqrt (real_of_int dss / (real (medFilterWin st) - 1.0) + 0.5)))"

subsection \<open>The standard deviation as the spec words it\<close>

text \<open>
  The spec describes \<open>StandardDeviation\<close> as: sum the squared differences from the mean,
  divide by \<open>N - 1\<close>, take the square root, add 0.5, truncate. This is that description
  for an integer accumulator, to be compared with \<open>getStdDev_int\<close>.
\<close>

definition StandardDeviation_spec :: "('a \<Rightarrow> int) \<Rightarrow> ('a, int) MedianFilter \<Rightarrow> int" where
  "StandardDeviation_spec toSum st =
     (let mean = getMean_int st;
          dss = diffSquareSum toSum mean st
      in truncate_double (sqrt (real_of_int dss / (real (medFilterWin st) - 1)) + 0.5))"

subsection \<open>Rounding to a double\<close>

text \<open>
  \<open>fl\<close> is the rounding of IEEE 754 binary64 in its default mode: to the nearest
  multiple of \<open>2 ^ (e - 52)\<close>, a tie going to the even multiple, where \<open>e\<close> is the binary
  exponent of the argument and at least -1022, so that subnormal numbers have the
  spacing \<open>2 ^ -1074\<close>. The exponent is not bounded above: \<open>fl\<close> is the rounding of the
  code for every real whose rounding is below \<open>2 ^ 1024\<close> in magnitude, and the overflow
  to infinity beyond that, infinities and NaN are left out. The doubles are the reals
  that \<open>fl\<close> leaves as they are.
\<close>

definition round_even :: "real \<Rightarrow> int" where
  "round_even r =
     (let f = \<lfloor>r\<rfloor> in
      if r - of_int f < 1 / 2 then f
      else if 1 / 2 < r - of_int f then f + 1
      else if even f then f else f + 1)"

definition fl :: "real \<Rightarrow> real" where
  "fl x =
     (if x = 0 then 0
      else let e = max \<lfloor>log 2 \<bar>x\<bar>\<rfloor> (- 1022)
           in of_int (round_even (x * 2 powr (52 - of_int e))) * 2 powr (of_int e - 52))"

subsection \<open>Accumulators of fixed width\<close>

text \<open>
  \<open>getMean\<close> for an integer accumulator of \<open>w\<close> bits. \<open>rd\<close> reads an accumulator value as
  the integer it stands for: \<open>sint\<close> for a signed accumulator type, \<open>uint\<close> for an unsigned
  one. C++ divides in the promoted type, in which \<open>medFilterWin\<close> keeps its value, with
  truncation towards zero, and converts the quotient back to the accumulator type.
\<close>

definition getMean_word :: "('w :: len word \<Rightarrow> int) \<Rightarrow> ('a, 'w word) MedianFilter \<Rightarrow> 'w word" where
  "getMean_word rd st = word_of_int (rd (totalSum st) sdiv int (medFilterWin st))"

text \<open>
  \<open>getStdDev\<close> for such an accumulator. The differences and their squares are summed in
  the accumulator type by \<open>diffSquareSum\<close>; the sum is converted to \<open>double\<close>, every
  operation on doubles rounds, and the result is truncated and converted back.
\<close>

definition getStdDev_word ::
    "('w :: len word \<Rightarrow> int) \<Rightarrow> ('a \<Rightarrow> 'w word) \<Rightarrow> ('a, 'w word) MedianFilter \<Rightarrow> 'w word" where
  "getStdDev_word rd toSum st =
     (let mean = getMean_word rd st;
          dss = diffSquareSum toSum mean st
      in word_of_int (truncate_double
           (fl (sqrt (fl (fl (fl (real_of_int (rd dss)) / (real (medFilterWin st) - 1.0)) + 0.5))))))"

subsection \<open>Floating-point accumulators\<close>

text \<open>
  The instance \<open>MedianFilter<double, double>\<close>. A sample is a double. The constructor, \<open>in\<close> and the accessors are the text of
  \<open>MedianFilter\<close>, \<open>in'\<close>, \<open>getMean\<close> and \<open>getStdDev\<close> above with every operation on the
  accumulator rounded; the conversion of \<open>medFilterWin\<close> to \<open>double\<close> is exact.
\<close>

definition MedianFilter_double :: "int \<Rightarrow> real \<Rightarrow> (real, real) MedianFilter" where
  "MedianFilter_double sz seed =
     (let win = nat (constrain sz 3 255);
          st = \<lparr> medFilterWin = win,
                 medDataPointer = drop_bit 1 win,
                 data = replicate win 0,
                 sizeMap = replicate win 0,
                 locationMap = replicate win 0,
                 oldestDataPoint = drop_bit 1 win,
                 totalSum = fl (real win * seed) \<rparr>
      in fold (init_slot seed) [0..<win] st)"

definition in_double :: "real \<Rightarrow> (real, real) MedianFilter \<Rightarrow> real \<times> (real, real) MedianFilter" where
  "in_double v st =
     (let rightEdge = (medFilterWin st + 255) mod 256;
          st1 = st\<lparr> totalSum := fl (totalSum st + fl (v - data st ! oldestDataPoint st)) \<rparr>;
          st2 = st1\<lparr> data := (data st1)[oldestDataPoint st1 := v] \<rparr>;
          (st3, dataMoved) =
            (if locationMap st2 ! oldestDataPoint st2 > 0
             then sortLeft (locationMap st2 ! oldestDataPoint st2) (st2, False)
             else (st2, False));
          st4 = (if \<not> dataMoved \<and> locationMap st3 ! oldestDataPoint st3 < rightEdge
                 then sortRight rightEdge (locationMap st3 ! oldestDataPoint st3) st3
                 else st3);
          st5 = st4\<lparr> oldestDataPoint := oldestDataPoint st4 + 1 \<rparr>;
          st6 = (if oldestDataPoint st5 = medFilterWin st5 then st5\<lparr> oldestDataPoint := 0 \<rparr> else st5)
      in (data st6 ! (sizeMap st6 ! medDataPointer st6), st6))"

definition feed_double :: "real list \<Rightarrow> (real, real) MedianFilter \<Rightarrow> (real, real) MedianFilter" where
  "feed_double vs st = fold (\<lambda>v s. snd (in_double v s)) vs st"

definition getMean_double :: "(real, real) MedianFilter \<Rightarrow> real" where
  "getMean_double st = fl (totalSum st / real (medFilterWin st))"

definition diffSquareSum_double :: "real \<Rightarrow> (real, real) MedianFilter \<Rightarrow> real" where
  "diffSquareSum_double mean st =
     fold (\<lambda>i acc. let diff = fl (data st ! i - mean) in fl (acc + fl (diff * diff)))
       [0..<medFilterWin st] 0"

definition getStdDev_double :: "(real, real) MedianFilter \<Rightarrow> real" where
  "getStdDev_double st =
     (let mean = getMean_double st;
          dss = diffSquareSum_double mean st
      in fl (sqrt (fl (fl (dss / (real (medFilterWin st) - 1.0)) + 0.5))))"

subsection \<open>The window of the spec\<close>

text \<open>
  The window of the spec: the \<open>n\<close> most recent samples of the stream that starts with
  \<open>n\<close> copies of the seed and goes on with the inserted samples, oldest first.
\<close>

definition window :: "nat \<Rightarrow> 'a \<Rightarrow> 'a list \<Rightarrow> 'a list" where
  "window n seed vs = drop (length vs) (replicate n seed @ vs)"

subsection \<open>Invariants\<close>

text \<open>The sample of rank \<open>r\<close>.\<close>

definition ranked :: "('a, 's) MedianFilter \<Rightarrow> nat \<Rightarrow> 'a" where
  "ranked st r = data st ! (sizeMap st ! r)"

text \<open>\<open>sizeMap\<close> and \<open>locationMap\<close> are inverse to each other on the indices of the window.\<close>

definition maps_inverse :: "('a, 's) MedianFilter \<Rightarrow> bool" where
  "maps_inverse st \<longleftrightarrow>
     length (sizeMap st) = medFilterWin st \<and> length (locationMap st) = medFilterWin st \<and>
     (\<forall>k < medFilterWin st. locationMap st ! k < medFilterWin st \<and> sizeMap st ! (locationMap st ! k) = k) \<and>
     (\<forall>r < medFilterWin st. sizeMap st ! r < medFilterWin st \<and> locationMap st ! (sizeMap st ! r) = r)"

text \<open>The samples are in ascending order of rank.\<close>

definition rank_sorted :: "('a :: linorder, 's) MedianFilter \<Rightarrow> bool" where
  "rank_sorted st \<longleftrightarrow> (\<forall>a b. a < b \<and> b < medFilterWin st \<longrightarrow> ranked st a \<le> ranked st b)"

text \<open>The invariant of the filter between two calls.\<close>

definition filter_inv :: "('a :: linorder, 's) MedianFilter \<Rightarrow> bool" where
  "filter_inv st \<longleftrightarrow>
     3 \<le> medFilterWin st \<and> medFilterWin st \<le> 255 \<and>
     medDataPointer st = medFilterWin st div 2 \<and>
     length (data st) = medFilterWin st \<and> oldestDataPoint st < medFilterWin st \<and>
     maps_inverse st \<and> rank_sorted st"

text \<open>
  Inside the passes of \<open>in\<close> the new sample sits at rank \<open>i\<close> and the other samples are
  in ascending order among themselves.
\<close>

definition sorted_but :: "nat \<Rightarrow> ('a :: linorder, 's) MedianFilter \<Rightarrow> bool" where
  "sorted_but i st \<longleftrightarrow>
     (\<forall>a b. a < b \<and> b < medFilterWin st \<and> a \<noteq> i \<and> b \<noteq> i \<longrightarrow> ranked st a \<le> ranked st b)"

definition mid :: "nat \<Rightarrow> ('a :: linorder, 's) MedianFilter \<Rightarrow> bool" where
  "mid i st \<longleftrightarrow>
     medFilterWin st \<le> 255 \<and> length (data st) = medFilterWin st \<and> maps_inverse st \<and>
     i < medFilterWin st \<and> sizeMap st ! i = oldestDataPoint st \<and> sorted_but i st"

text \<open>
  One round of either pass exchanges the slots of two neighbouring ranks, \<open>a\<close> being the
  rank of the new sample.
\<close>

definition exchange :: "nat \<Rightarrow> nat \<Rightarrow> ('a, 's) MedianFilter \<Rightarrow> ('a, 's) MedianFilter" where
  "exchange a b st =
     st\<lparr> sizeMap := (sizeMap st)[a := sizeMap st ! b, b := sizeMap st ! a],
         locationMap := (locationMap st)[sizeMap st ! b := a, sizeMap st ! a := b] \<rparr>"

text \<open>What the passes leave alone: everything but the two maps.\<close>

definition unmoved :: "('a, 's) MedianFilter \<Rightarrow> ('a, 's) MedianFilter \<Rightarrow> bool" where
  "unmoved st st' \<longleftrightarrow>
     medFilterWin st' = medFilterWin st \<and> medDataPointer st' = medDataPointer st \<and>
     data st' = data st \<and> oldestDataPoint st' = oldestDataPoint st \<and> totalSum st' = totalSum st"

text \<open>
  The order of ranks that the passes keep: between any two slots other than the one being
  written, and between the written slot and any slot holding an equal sample.
\<close>

definition order_kept :: "('a, 's) MedianFilter \<Rightarrow> ('a, 's) MedianFilter \<Rightarrow> bool" where
  "order_kept st st' \<longleftrightarrow>
     (\<forall>j k. j < medFilterWin st \<and> k < medFilterWin st \<and>
            j \<noteq> oldestDataPoint st \<and> k \<noteq> oldestDataPoint st \<longrightarrow>
        (locationMap st' ! j < locationMap st' ! k \<longleftrightarrow> locationMap st ! j < locationMap st ! k)) \<and>
     (\<forall>j. j < medFilterWin st \<and> j \<noteq> oldestDataPoint st \<and>
          data st ! j = data st ! oldestDataPoint st \<longrightarrow>
        (locationMap st' ! oldestDataPoint st < locationMap st' ! j \<longleftrightarrow>
         locationMap st ! oldestDataPoint st < locationMap st ! j))"

definition settled :: "('a :: linorder, 's) MedianFilter \<Rightarrow> ('a, 's) MedianFilter \<Rightarrow> bool" where
  "settled st st' \<longleftrightarrow> unmoved st st' \<and> order_kept st st' \<and> maps_inverse st' \<and> rank_sorted st'"

text \<open>The state of \<open>in\<close> after its two stores and before the passes.\<close>

definition stored :: "('a \<Rightarrow> 's) \<Rightarrow> 'a \<Rightarrow> ('a, 's :: comm_ring_1) MedianFilter \<Rightarrow> ('a, 's) MedianFilter" where
  "stored toSum v st =
     st\<lparr> totalSum := totalSum st + (toSum v - toSum (data st ! oldestDataPoint st)),
         data := (data st)[oldestDataPoint st := v] \<rparr>"

text \<open>The same state of \<open>in_double\<close>.\<close>

definition stored_double :: "real \<Rightarrow> (real, real) MedianFilter \<Rightarrow> (real, real) MedianFilter" where
  "stored_double v st =
     st\<lparr> totalSum := fl (totalSum st + fl (v - data st ! oldestDataPoint st)),
         data := (data st)[oldestDataPoint st := v] \<rparr>"

text \<open>The last two statements of \<open>in\<close>: the cursor moves on and wraps.\<close>

definition advance :: "('a, 's) MedianFilter \<Rightarrow> ('a, 's) MedianFilter" where
  "advance st =
     st\<lparr> oldestDataPoint :=
           (if oldestDataPoint st + 1 = medFilterWin st then 0 else oldestDataPoint st + 1) \<rparr>"

section \<open>Properties\<close>

subsection \<open>Exchanging two ranks\<close>

lemma exchange_fields [simp]:
  "medFilterWin (exchange a b st) = medFilterWin st"
  "medDataPointer (exchange a b st) = medDataPointer st"
  "data (exchange a b st) = data st"
  "oldestDataPoint (exchange a b st) = oldestDataPoint st"
  "totalSum (exchange a b st) = totalSum st"
  "length (sizeMap (exchange a b st)) = length (sizeMap st)"
  "length (locationMap (exchange a b st)) = length (locationMap st)"
  by (simp_all add: exchange_def)

lemma maps_inverseD:
  assumes "maps_inverse st"
  shows "length (sizeMap st) = medFilterWin st" "length (locationMap st) = medFilterWin st"
    and "\<And>k. k < medFilterWin st \<Longrightarrow> locationMap st ! k < medFilterWin st"
    and "\<And>k. k < medFilterWin st \<Longrightarrow> sizeMap st ! (locationMap st ! k) = k"
    and "\<And>r. r < medFilterWin st \<Longrightarrow> sizeMap st ! r < medFilterWin st"
    and "\<And>r. r < medFilterWin st \<Longrightarrow> locationMap st ! (sizeMap st ! r) = r"
  using assms by (simp_all add: maps_inverse_def)

lemma maps_inverse_inj:
  assumes "maps_inverse st" "a < medFilterWin st" "b < medFilterWin st"
    "sizeMap st ! a = sizeMap st ! b"
  shows "a = b"
proof -
  have "a = locationMap st ! (sizeMap st ! a)"
    by (rule maps_inverseD(6) [OF assms(1,2), symmetric])
  also have "\<dots> = locationMap st ! (sizeMap st ! b)"
    by (simp only: assms(4))
  also have "\<dots> = b"
    by (rule maps_inverseD(6) [OF assms(1,3)])
  finally show ?thesis .
qed

lemma maps_inverse_inj_loc:
  assumes "maps_inverse st" "j < medFilterWin st" "k < medFilterWin st"
    "locationMap st ! j = locationMap st ! k"
  shows "j = k"
proof -
  have "j = sizeMap st ! (locationMap st ! j)"
    by (rule maps_inverseD(4) [OF assms(1,2), symmetric])
  also have "\<dots> = sizeMap st ! (locationMap st ! k)"
    by (simp only: assms(4))
  also have "\<dots> = k"
    by (rule maps_inverseD(4) [OF assms(1,3)])
  finally show ?thesis .
qed

lemma sizeMap_exchange:
  assumes "maps_inverse st" "a < medFilterWin st" "b < medFilterWin st" "a \<noteq> b"
  shows "sizeMap (exchange a b st) ! a = sizeMap st ! b"
    and "sizeMap (exchange a b st) ! b = sizeMap st ! a"
    and "\<And>r. r \<noteq> a \<Longrightarrow> r \<noteq> b \<Longrightarrow> sizeMap (exchange a b st) ! r = sizeMap st ! r"
  using assms maps_inverseD(1) [OF assms(1)] by (simp_all add: exchange_def)

lemma locationMap_exchange:
  assumes "maps_inverse st" "a < medFilterWin st" "b < medFilterWin st" "a \<noteq> b"
  shows "locationMap (exchange a b st) ! (sizeMap st ! a) = b"
    and "locationMap (exchange a b st) ! (sizeMap st ! b) = a"
    and "\<And>k. k \<noteq> sizeMap st ! a \<Longrightarrow> k \<noteq> sizeMap st ! b \<Longrightarrow>
           locationMap (exchange a b st) ! k = locationMap st ! k"
proof -
  have ne: "sizeMap st ! a \<noteq> sizeMap st ! b"
    using maps_inverse_inj [OF assms(1-3)] assms(4) by blast
  have lt: "sizeMap st ! a < length (locationMap st)" "sizeMap st ! b < length (locationMap st)"
    using maps_inverseD(2,5) [OF assms(1)] assms(2,3) by simp_all
  show "locationMap (exchange a b st) ! (sizeMap st ! a) = b"
    using lt by (simp add: exchange_def)
  show "locationMap (exchange a b st) ! (sizeMap st ! b) = a"
    using lt ne by (simp add: exchange_def)
  show "\<And>k. k \<noteq> sizeMap st ! a \<Longrightarrow> k \<noteq> sizeMap st ! b \<Longrightarrow>
           locationMap (exchange a b st) ! k = locationMap st ! k"
    by (simp add: exchange_def)
qed

lemma maps_inverse_exchange:
  assumes inv: "maps_inverse st" and a: "a < medFilterWin st" and b: "b < medFilterWin st"
    and ab: "a \<noteq> b"
  shows "maps_inverse (exchange a b st)"
proof -
  let ?N = "medFilterWin st"
  let ?st = "exchange a b st"
  note sm = sizeMap_exchange [OF inv a b ab]
  note lm = locationMap_exchange [OF inv a b ab]
  note D = maps_inverseD [OF inv]
  have 1: "locationMap ?st ! k < ?N \<and> sizeMap ?st ! (locationMap ?st ! k) = k" if k: "k < ?N" for k
  proof -
    consider "k = sizeMap st ! a" | "k = sizeMap st ! b"
      | "k \<noteq> sizeMap st ! a" "k \<noteq> sizeMap st ! b" by blast
    then show ?thesis
    proof cases
      case 1 then show ?thesis using lm(1) sm(2) b by simp
    next
      case 2 then show ?thesis using lm(2) sm(1) a by simp
    next
      case 3
      have "locationMap st ! k \<noteq> a" "locationMap st ! k \<noteq> b"
        using 3 D(4) [OF k] by auto
      then show ?thesis
        using lm(3) [OF 3] sm(3) D(3) [OF k] D(4) [OF k] by simp
    qed
  qed
  have 2: "sizeMap ?st ! r < ?N \<and> locationMap ?st ! (sizeMap ?st ! r) = r" if r: "r < ?N" for r
  proof -
    consider "r = a" | "r = b" | "r \<noteq> a" "r \<noteq> b" by blast
    then show ?thesis
    proof cases
      case 1 then show ?thesis using sm(1) lm(2) D(5) [OF b] by simp
    next
      case 2 then show ?thesis using sm(2) lm(1) D(5) [OF a] by simp
    next
      case 3
      have "sizeMap st ! r \<noteq> sizeMap st ! a" "sizeMap st ! r \<noteq> sizeMap st ! b"
        using 3 maps_inverse_inj [OF inv r a] maps_inverse_inj [OF inv r b] by auto
      then show ?thesis
        using sm(3) [OF 3] lm(3) D(5) [OF r] D(6) [OF r] by simp
    qed
  qed
  show ?thesis
    unfolding maps_inverse_def using D(1,2) 1 2 by simp
qed

subsection \<open>The rounds of the two passes\<close>

lemma midD:
  assumes "mid i st"
  shows "medFilterWin st \<le> 255" "length (data st) = medFilterWin st" "maps_inverse st"
    "i < medFilterWin st" "sizeMap st ! i = oldestDataPoint st" "sorted_but i st"
    "locationMap st ! oldestDataPoint st = i" "oldestDataPoint st < medFilterWin st"
proof -
  show 1: "medFilterWin st \<le> 255" "length (data st) = medFilterWin st" "maps_inverse st"
    "i < medFilterWin st" "sizeMap st ! i = oldestDataPoint st" "sorted_but i st"
    using assms by (simp_all add: mid_def)
  show "locationMap st ! oldestDataPoint st = i"
    using maps_inverseD(6) [OF 1(3,4)] 1(5) by simp
  show "oldestDataPoint st < medFilterWin st"
    using maps_inverseD(5) [OF 1(3,4)] 1(5) by simp
qed

lemma ranked_exchange:
  assumes "maps_inverse st" "a < medFilterWin st" "b < medFilterWin st" "a \<noteq> b"
  shows "ranked (exchange a b st) a = ranked st b"
    and "ranked (exchange a b st) b = ranked st a"
    and "\<And>r. r \<noteq> a \<Longrightarrow> r \<noteq> b \<Longrightarrow> ranked (exchange a b st) r = ranked st r"
  using sizeMap_exchange [OF assms] by (simp_all add: ranked_def)

lemma sortLeft_step:
  assumes "mid (Suc n) st"
  shows "sortLeft (Suc n) (st, m) =
           (if data st ! oldestDataPoint st < ranked st n
            then sortLeft n (exchange (Suc n) n st, True) else (st, m))"
proof -
  note D = midD [OF assms]
  note I = maps_inverseD [OF D(3)]
  let ?q = "sizeMap st ! n"
  let ?p = "oldestDataPoint st"
  have n: "n < medFilterWin st" using D(4) by simp
  have q: "?q < medFilterWin st" "locationMap st ! ?q = n" using I(5,6) [OF n] by simp_all
  have pq: "?p \<noteq> ?q"
    using maps_inverse_inj [OF D(3) D(4) n] D(5) by auto
  have a1: "(sizeMap st)[Suc n := ?q] ! n = ?q"
    by simp
  have a2: "Suc n mod 256 = Suc n" using D(1,4) by simp
  have a3: "(locationMap st)[?q := Suc n] ! ?p = Suc n"
    using pq D(7) by simp
  have a4: "(Suc n + 255) mod 256 = n" "n mod 256 = n" using D(1,4) by simp_all
  have "(let st1 = st\<lparr> sizeMap := (sizeMap st)[Suc n := sizeMap st ! n] \<rparr>;
            st2 = st1\<lparr> locationMap := (locationMap st1)
                     [sizeMap st1 ! n := (locationMap st1 ! (sizeMap st1 ! n) + 1) mod 256] \<rparr>;
            st3 = st2\<lparr> sizeMap := (sizeMap st2)[n := oldestDataPoint st2] \<rparr>;
            st4 = st3\<lparr> locationMap := (locationMap st3)
                     [oldestDataPoint st3 := (locationMap st3 ! oldestDataPoint st3 + 255) mod 256] \<rparr>
        in st4) = exchange (Suc n) n st"
    unfolding Let_def exchange_def
    by (simp add: a1 a2 a3 a4 q D(5))
  then show ?thesis
    by (simp add: Let_def ranked_def)
qed

lemma sortRight_step:
  assumes "mid i st" "i < rightEdge" "rightEdge < medFilterWin st"
  shows "sortRight rightEdge i st =
           (if ranked st (i + 1) < data st ! oldestDataPoint st
            then sortRight rightEdge (i + 1) (exchange i (i + 1) st) else st)"
proof -
  note D = midD [OF assms(1)]
  note I = maps_inverseD [OF D(3)]
  let ?n = "i + 1"
  let ?q = "sizeMap st ! ?n"
  let ?p = "oldestDataPoint st"
  have n: "?n < medFilterWin st" using assms by simp
  have q: "?q < medFilterWin st" "locationMap st ! ?q = ?n" 
    "locationMap st ! (sizeMap st ! Suc i) = Suc i" using I(5,6) [OF n] by simp_all
  have pq: "?p \<noteq> ?q"
    using maps_inverse_inj [OF D(3) D(4) n] D(5) by auto
  have a1: "(sizeMap st)[i := ?q] ! ?n = ?q"
    by simp
  have a2: "(?n + 255) mod 256 = i" "(Suc i + 255) mod 256 = i" "i mod 256 = i"
    using D(1,4) by simp_all
  have a3: "(locationMap st)[sizeMap st ! Suc i := i] ! ?p = i"
    using pq D(7) by simp
  have a4: "(i + 1) mod 256 = i + 1" "Suc i mod 256 = Suc i" using D(1) n by simp_all
  have "(let st1 = st\<lparr> sizeMap := (sizeMap st)[i := sizeMap st ! ?n] \<rparr>;
              st2 = st1\<lparr> locationMap := (locationMap st1)
                       [sizeMap st1 ! ?n := (locationMap st1 ! (sizeMap st1 ! ?n) + 255) mod 256] \<rparr>;
              st3 = st2\<lparr> sizeMap := (sizeMap st2)[?n := oldestDataPoint st2] \<rparr>;
              st4 = st3\<lparr> locationMap := (locationMap st3)
                       [oldestDataPoint st3 := (locationMap st3 ! oldestDataPoint st3 + 1) mod 256] \<rparr>
          in st4) = exchange i ?n st"
    unfolding Let_def exchange_def
    by (simp add: a1 a2 a3 a4 q D(5))
  then show ?thesis
    using assms(2) by (subst sortRight.simps) (simp add: Let_def ranked_def)
qed

lemma mid_exchange_down:
  assumes m: "mid (Suc n) st" and lt: "data st ! oldestDataPoint st < ranked st n"
  shows "mid n (exchange (Suc n) n st)"
proof -
  note D = midD [OF m]
  have n: "n < medFilterWin st" and ne: "Suc n \<noteq> n" using D(4) by simp_all
  note R = ranked_exchange [OF D(3) D(4) n ne]
  note S = sizeMap_exchange [OF D(3) D(4) n ne]
  have sb: "\<And>a b. a < b \<Longrightarrow> b < medFilterWin st \<Longrightarrow> a \<noteq> Suc n \<Longrightarrow> b \<noteq> Suc n \<Longrightarrow>
              ranked st a \<le> ranked st b"
    using D(6) by (simp add: sorted_but_def)
  have "ranked (exchange (Suc n) n st) a \<le> ranked (exchange (Suc n) n st) b"
    if ab: "a < b" "b < medFilterWin st" "a \<noteq> n" "b \<noteq> n" for a b
  proof -
    consider "b = Suc n" | "a = Suc n" | "a \<noteq> Suc n" "b \<noteq> Suc n" by blast
    then show ?thesis
    proof cases
      case 1
      then have "a < n" using ab by simp
      then have "ranked st a \<le> ranked st n" using sb [of a n] n by simp
      then show ?thesis using 1 R(1) R(3) [of a] ab by simp
    next
      case 2
      then have "ranked st n \<le> ranked st b" using sb [of n b] ab by simp
      then show ?thesis using 2 R(1) R(3) [of b] ab by simp
    next
      case 3
      then show ?thesis using R(3) [of a] R(3) [of b] sb [of a b] ab by simp
    qed
  qed
  then have "sorted_but n (exchange (Suc n) n st)"
    by (simp add: sorted_but_def)
  then show ?thesis
    using D(1,2,5) n S(2) maps_inverse_exchange [OF D(3) D(4) n ne]
    by (simp add: mid_def)
qed

lemma mid_exchange_up:
  assumes m: "mid i st" and i1: "i + 1 < medFilterWin st"
    and lt: "ranked st (i + 1) < data st ! oldestDataPoint st"
  shows "mid (i + 1) (exchange i (i + 1) st)"
proof -
  note D = midD [OF m]
  have ne: "i \<noteq> i + 1" by simp
  note R = ranked_exchange [OF D(3) D(4) i1 ne]
  note S = sizeMap_exchange [OF D(3) D(4) i1 ne]
  have sb: "\<And>a b. a < b \<Longrightarrow> b < medFilterWin st \<Longrightarrow> a \<noteq> i \<Longrightarrow> b \<noteq> i \<Longrightarrow>
              ranked st a \<le> ranked st b"
    using D(6) by (simp add: sorted_but_def)
  have "ranked (exchange i (i + 1) st) a \<le> ranked (exchange i (i + 1) st) b"
    if ab: "a < b" "b < medFilterWin st" "a \<noteq> i + 1" "b \<noteq> i + 1" for a b
  proof -
    consider "b = i" | "a = i" | "a \<noteq> i" "b \<noteq> i" by blast
    then show ?thesis
    proof cases
      case 1
      then have "ranked st a \<le> ranked st (i + 1)" using sb [of a "i + 1"] ab i1 by simp
      then show ?thesis using 1 R(1) R(3) [of a] ab by simp
    next
      case 2
      then have "i + 1 < b" using ab by simp
      then have "ranked st (i + 1) \<le> ranked st b" using sb [of "i + 1" b] ab by simp
      then show ?thesis using 2 R(1) R(3) [of b] ab by simp
    next
      case 3
      then show ?thesis using R(3) [of a] R(3) [of b] sb [of a b] ab by simp
    qed
  qed
  then have "sorted_but (i + 1) (exchange i (i + 1) st)"
    by (simp add: sorted_but_def)
  then show ?thesis
    using D(1,2,5) i1 S(2) maps_inverse_exchange [OF D(3) D(4) i1 ne]
    by (simp add: mid_def)
qed

text \<open>The new sample finds its place once both neighbours agree with it.\<close>

lemma rank_sorted_settled:
  assumes m: "mid i st"
    and lo: "\<And>a. a < i \<Longrightarrow> ranked st a \<le> data st ! oldestDataPoint st"
    and hi: "\<And>b. i < b \<Longrightarrow> b < medFilterWin st \<Longrightarrow> data st ! oldestDataPoint st \<le> ranked st b"
  shows "rank_sorted st"
proof -
  note D = midD [OF m]
  have v: "ranked st i = data st ! oldestDataPoint st"
    using D(5) by (simp add: ranked_def)
  have sb: "\<And>a b. a < b \<Longrightarrow> b < medFilterWin st \<Longrightarrow> a \<noteq> i \<Longrightarrow> b \<noteq> i \<Longrightarrow>
              ranked st a \<le> ranked st b"
    using D(6) by (simp add: sorted_but_def)
  have "ranked st a \<le> ranked st b" if ab: "a < b" "b < medFilterWin st" for a b
  proof -
    consider "a = i" | "b = i" | "a \<noteq> i" "b \<noteq> i" by blast
    then show ?thesis
    proof cases
      case 1 then show ?thesis using hi [of b] ab v by simp
    next
      case 2 then show ?thesis using lo [of a] ab v by simp
    next
      case 3 then show ?thesis using sb ab by simp
    qed
  qed
  then show ?thesis by (simp add: rank_sorted_def)
qed

lemma unmoved_refl: "unmoved st st"
  by (simp add: unmoved_def)

lemma unmoved_trans: "unmoved st st' \<Longrightarrow> unmoved st' st'' \<Longrightarrow> unmoved st st''"
  by (simp add: unmoved_def)

lemma unmoved_exchange: "unmoved st (exchange a b st)"
  by (simp add: unmoved_def)

lemma order_kept_refl: "order_kept st st"
  by (simp add: order_kept_def)

lemma order_kept_trans:
  assumes "order_kept st st'" "unmoved st st'" "order_kept st' st''"
  shows "order_kept st st''"
  using assms unfolding order_kept_def unmoved_def by simp

lemma order_kept_exchange:
  assumes inv: "maps_inverse st" and a: "a < medFilterWin st" and b: "b < medFilterWin st"
    and adj: "a = Suc b \<or> b = Suc a"
    and p: "sizeMap st ! a = oldestDataPoint st"
    and ne: "ranked st b \<noteq> data st ! oldestDataPoint st"
  shows "order_kept st (exchange a b st)"
proof -
  let ?p = "oldestDataPoint st" and ?q = "sizeMap st ! b" and ?N = "medFilterWin st"
  let ?st = "exchange a b st"
  have ab: "a \<noteq> b" using adj by auto
  note L = locationMap_exchange [OF inv a b ab]
  note D = maps_inverseD [OF inv]
  have lp: "locationMap ?st ! ?p = b" "locationMap st ! ?p = a"
    using L(1) D(6) [OF a] p by simp_all
  have lq: "locationMap ?st ! ?q = a" "locationMap st ! ?q = b"
    using L(2) D(6) [OF b] by simp_all
  have other: "locationMap ?st ! k = locationMap st ! k \<and>
               locationMap st ! k \<noteq> a \<and> locationMap st ! k \<noteq> b"
    if "k < ?N" "k \<noteq> ?p" "k \<noteq> ?q" for k
    using that L(3) [of k] p D(4) [OF that(1)] by auto
  have 1: "locationMap ?st ! j < locationMap ?st ! k \<longleftrightarrow> locationMap st ! j < locationMap st ! k"
    if jk: "j < ?N" "k < ?N" "j \<noteq> ?p" "k \<noteq> ?p" for j k
  proof -
    consider "j = ?q" "k = ?q" | "j = ?q" "k \<noteq> ?q" | "j \<noteq> ?q" "k = ?q" | "j \<noteq> ?q" "k \<noteq> ?q"
      by blast
    then show ?thesis
    proof cases
      case 1 then show ?thesis by simp
    next
      case 2 then show ?thesis using lq other [of k] jk adj by auto
    next
      case 3 then show ?thesis using lq other [of j] jk adj by auto
    next
      case 4 then show ?thesis using other [of j] other [of k] jk by simp
    qed
  qed
  have 2: "locationMap ?st ! ?p < locationMap ?st ! j \<longleftrightarrow> locationMap st ! ?p < locationMap st ! j"
    if j: "j < ?N" "j \<noteq> ?p" "data st ! j = data st ! ?p" for j
  proof -
    have "j \<noteq> ?q" using ne j(3) by (auto simp: ranked_def)
    then show ?thesis using lp other [of j] j adj by auto
  qed
  show ?thesis
    unfolding order_kept_def using 1 2 by blast
qed

lemma settled_exchange:
  assumes inv: "maps_inverse st" and a: "a < medFilterWin st" and b: "b < medFilterWin st"
    and adj: "a = Suc b \<or> b = Suc a"
    and p: "sizeMap st ! a = oldestDataPoint st"
    and ne: "ranked st b \<noteq> data st ! oldestDataPoint st"
    and s: "settled (exchange a b st) st'"
  shows "settled st st'"
proof -
  have u: "unmoved st (exchange a b st)" by (rule unmoved_exchange)
  have k: "order_kept st (exchange a b st)"
    using inv a b adj p ne by (rule order_kept_exchange)
  have "unmoved st st'"
    using u s unmoved_trans unfolding settled_def by blast
  moreover have "order_kept st st'"
    using order_kept_trans [OF k u] s unfolding settled_def by blast
  ultimately show ?thesis using s by (simp add: settled_def)
qed

subsection \<open>Both passes put the new sample in its place\<close>

lemma sortLeft_moved: "snd (sortLeft i (st, True)) = True"
  by (induction i arbitrary: st) (simp_all add: Let_def)

lemma sortLeft_settles:
  assumes "mid i st"
    and "\<And>b. i < b \<Longrightarrow> b < medFilterWin st \<Longrightarrow> data st ! oldestDataPoint st \<le> ranked st b"
  shows "settled st (fst (sortLeft i (st, m)))"
  using assms
proof (induction i arbitrary: st m)
  case 0
  have "rank_sorted st"
    using "0.prems" by (intro rank_sorted_settled [of 0 st]) simp_all
  then show ?case
    using midD(3) [OF "0.prems"(1)]
    by (simp add: settled_def unmoved_refl order_kept_refl)
next
  case (Suc n)
  note m = Suc.prems(1) and hi = Suc.prems(2)
  note D = midD [OF m]
  have n: "n < medFilterWin st" and ne: "Suc n \<noteq> n" using D(4) by simp_all
  have sb: "\<And>a b. a < b \<Longrightarrow> b < medFilterWin st \<Longrightarrow> a \<noteq> Suc n \<Longrightarrow> b \<noteq> Suc n \<Longrightarrow>
              ranked st a \<le> ranked st b"
    using D(6) by (simp add: sorted_but_def)
  show ?case
  proof (cases "data st ! oldestDataPoint st < ranked st n")
    case True
    let ?st = "exchange (Suc n) n st"
    note R = ranked_exchange [OF D(3) D(4) n ne]
    have m': "mid n ?st" using m True by (rule mid_exchange_down)
    have hi': "data ?st ! oldestDataPoint ?st \<le> ranked ?st b"
      if b: "n < b" "b < medFilterWin ?st" for b
    proof (cases "b = Suc n")
      case True
      then show ?thesis using R(1) \<open>data st ! oldestDataPoint st < ranked st n\<close> by simp
    next
      case False
      then show ?thesis using R(3) [of b] hi [of b] b by simp
    qed
    have "settled ?st (fst (sortLeft n (?st, True)))"
      using m' hi' by (rule Suc.IH)
    then have "settled st (fst (sortLeft n (?st, True)))"
      using True by (intro settled_exchange [OF D(3) D(4) n _ D(5)]) simp_all
    then show ?thesis
      using True by (simp only: sortLeft_step [OF m] if_True)
  next
    case False
    have lo: "ranked st a \<le> data st ! oldestDataPoint st" if "a < Suc n" for a
    proof (cases "a = n")
      case True then show ?thesis using False by simp
    next
      case False
      then have "ranked st a \<le> ranked st n" using sb [of a n] that n by simp
      then show ?thesis using \<open>\<not> data st ! oldestDataPoint st < ranked st n\<close> by simp
    qed
    have "rank_sorted st"
      using m lo hi by (rule rank_sorted_settled)
    then show ?thesis
      using False D(3)
      by (simp only: sortLeft_step [OF m] if_False fst_conv)
         (simp add: settled_def unmoved_refl order_kept_refl)
  qed
qed

lemma sortRight_settles:
  assumes "mid i st" and "Suc rightEdge = medFilterWin st" and "i \<le> rightEdge"
    and "\<And>a. a < i \<Longrightarrow> ranked st a \<le> data st ! oldestDataPoint st"
  shows "settled st (sortRight rightEdge i st)"
  using assms
proof (induction "rightEdge - i" arbitrary: i st)
  case 0
  then have "\<not> i < rightEdge" by simp
  then have eq: "sortRight rightEdge i st = st"
    by (subst sortRight.simps) simp
  have "rank_sorted st"
    using "0.prems"(1,4)
  proof (rule rank_sorted_settled)
    fix b assume "i < b" "b < medFilterWin st"
    then show "data st ! oldestDataPoint st \<le> ranked st b"
      using "0.prems"(2,3) "0.hyps" by simp
  qed
  then show ?case
    using midD(3) [OF "0.prems"(1)]
    by (simp add: eq settled_def unmoved_refl order_kept_refl)
next
  case (Suc k)
  note m = Suc.prems(1) and lo = Suc.prems(4)
  note D = midD [OF m]
  have i: "i < rightEdge" "rightEdge < medFilterWin st" "i + 1 < medFilterWin st" "i \<noteq> i + 1"
    using Suc.hyps(2) Suc.prems(2) by simp_all
  note step = sortRight_step [OF m i(1,2)]
  have sb: "\<And>a b. a < b \<Longrightarrow> b < medFilterWin st \<Longrightarrow> a \<noteq> i \<Longrightarrow> b \<noteq> i \<Longrightarrow>
              ranked st a \<le> ranked st b"
    using D(6) by (simp add: sorted_but_def)
  show ?case
  proof (cases "ranked st (i + 1) < data st ! oldestDataPoint st")
    case True
    let ?st = "exchange i (i + 1) st"
    note R = ranked_exchange [OF D(3) D(4) i(3,4)]
    have m': "mid (i + 1) ?st" using m i(3) True by (rule mid_exchange_up)
    have lo': "ranked ?st a \<le> data ?st ! oldestDataPoint ?st" if a: "a < i + 1" for a
    proof (cases "a = i")
      case True
      then show ?thesis
        using R(1) \<open>ranked st (i + 1) < data st ! oldestDataPoint st\<close> by simp
    next
      case False
      then show ?thesis using R(3) [of a] lo [of a] a by simp
    qed
    have "settled ?st (sortRight rightEdge (i + 1) ?st)"
      using Suc.hyps(2) Suc.prems(2) i(1) m' lo'
      by (intro Suc.hyps(1)) simp_all
    then have "settled st (sortRight rightEdge (i + 1) ?st)"
      using True by (intro settled_exchange [OF D(3) D(4) i(3) _ D(5)]) simp_all
    then show ?thesis
      using True by (simp only: step if_True)
  next
    case False
    have hi: "data st ! oldestDataPoint st \<le> ranked st b" if b: "i < b" "b < medFilterWin st" for b
    proof (cases "b = i + 1")
      case True then show ?thesis using False by simp
    next
      case False
      then have "ranked st (i + 1) \<le> ranked st b" using sb [of "i + 1" b] b by simp
      then show ?thesis using \<open>\<not> ranked st (i + 1) < data st ! oldestDataPoint st\<close> by simp
    qed
    have "rank_sorted st"
      using m lo hi by (rule rank_sorted_settled)
    then show ?thesis
      using False D(3)
      by (simp only: step if_False) (simp add: settled_def unmoved_refl order_kept_refl)
  qed
qed

subsection \<open>Insertion keeps the invariant\<close>

lemma in'_unfold:
  "in' toSum v st =
     (case (if 0 < locationMap (stored toSum v st) ! oldestDataPoint (stored toSum v st)
            then sortLeft (locationMap (stored toSum v st) ! oldestDataPoint (stored toSum v st))
                   (stored toSum v st, False)
            else (stored toSum v st, False)) of
        (st3, dataMoved) \<Rightarrow>
          let st4 = (if \<not> dataMoved \<and>
                        locationMap st3 ! oldestDataPoint st3 < (medFilterWin st + 255) mod 256
                     then sortRight ((medFilterWin st + 255) mod 256)
                            (locationMap st3 ! oldestDataPoint st3) st3
                     else st3)
          in (data st4 ! (sizeMap st4 ! medDataPointer st4), advance st4))"
  unfolding in'_def Let_def stored_def advance_def
  by (simp split: prod.splits)

lemma mid_stored:
  assumes "filter_inv st"
  shows "mid (locationMap st ! oldestDataPoint st) (stored toSum v st)"
proof -
  let ?N = "medFilterWin st" and ?p = "oldestDataPoint st"
  let ?r = "locationMap st ! ?p"
  have inv: "maps_inverse st" and p: "?p < ?N" and N: "?N \<le> 255" and len: "length (data st) = ?N"
    and rs: "\<And>a b. a < b \<Longrightarrow> b < ?N \<Longrightarrow> ranked st a \<le> ranked st b"
    using assms by (simp_all add: filter_inv_def rank_sorted_def)
  note D = maps_inverseD [OF inv]
  have inv': "maps_inverse (stored toSum v st)"
    using inv by (simp add: maps_inverse_def stored_def)
  have r: "?r < ?N" "sizeMap st ! ?r = ?p" using D(3,4) [OF p] by simp_all
  have same: "ranked (stored toSum v st) a = ranked st a" if "a < ?N" "a \<noteq> ?r" for a
  proof -
    have "sizeMap st ! a \<noteq> ?p"
      using maps_inverse_inj [OF inv that(1) r(1)] r(2) that(2) by auto
    then show ?thesis by (simp add: ranked_def stored_def)
  qed
  have "sorted_but ?r (stored toSum v st)"
    unfolding sorted_but_def
  proof (intro allI impI)
    fix a b
    assume ab: "a < b \<and> b < medFilterWin (stored toSum v st) \<and> a \<noteq> ?r \<and> b \<noteq> ?r"
    then have "a < b" "b < ?N" "a < ?N" "a \<noteq> ?r" "b \<noteq> ?r" by (simp_all add: stored_def)
    then show "ranked (stored toSum v st) a \<le> ranked (stored toSum v st) b"
      using same [of a] same [of b] rs [of a b] by simp
  qed
  then show ?thesis
    using inv' N len r by (simp add: mid_def stored_def)
qed

lemma in'_settles:
  assumes "filter_inv st"
  shows "\<exists>st'. settled (stored toSum v st) st' \<and>
           in' toSum v st = (ranked st' (medDataPointer st'), advance st')"
proof -
  let ?st2 = "stored toSum v st"
  let ?N = "medFilterWin st" and ?p = "oldestDataPoint st"
  let ?r = "locationMap st ! ?p"
  have N: "3 \<le> ?N" "?N \<le> 255" using assms by (simp_all add: filter_inv_def)
  then have re: "(?N + 255) mod 256 = ?N - 1" by (simp add: mod_if)
  note m = mid_stored [OF assms, of toSum v]
  note D = midD [OF m]
  have f2: "medFilterWin ?st2 = ?N" "oldestDataPoint ?st2 = ?p" "locationMap ?st2 = locationMap st"
    by (simp_all add: stored_def)
  have sb: "\<And>a b. a < b \<Longrightarrow> b < ?N \<Longrightarrow> a \<noteq> ?r \<Longrightarrow> b \<noteq> ?r \<Longrightarrow>
              ranked ?st2 a \<le> ranked ?st2 b"
    using D(6) by (simp add: sorted_but_def f2)
  have unfold: "in' toSum v st =
      (case (if 0 < ?r then sortLeft ?r (?st2, False) else (?st2, False)) of
         (st3, dataMoved) \<Rightarrow>
           let st4 = (if \<not> dataMoved \<and> locationMap st3 ! oldestDataPoint st3 < ?N - 1
                      then sortRight (?N - 1) (locationMap st3 ! oldestDataPoint st3) st3
                      else st3)
           in (ranked st4 (medDataPointer st4),
               st4\<lparr> oldestDataPoint :=
                 (if oldestDataPoint st4 + 1 = medFilterWin st4 then 0 else oldestDataPoint st4 + 1) \<rparr>))"
    unfolding in'_unfold re Let_def
    by (simp add: f2 ranked_def advance_def split: prod.splits)
  show ?thesis
  proof (cases "0 < ?r \<and> data ?st2 ! ?p < ranked ?st2 (?r - 1)")
    case True
    then obtain n where n: "?r = Suc n" by (cases ?r) simp_all
    have mS: "mid (Suc n) ?st2" using m n by simp
    have lt: "data ?st2 ! oldestDataPoint ?st2 < ranked ?st2 n"
      using True n by (simp add: f2)
    have hi: "data ?st2 ! oldestDataPoint ?st2 \<le> ranked ?st2 b"
      if b: "Suc n < b" "b < medFilterWin ?st2" for b
    proof -
      have "ranked ?st2 n \<le> ranked ?st2 b" using sb [of n b] b n by (simp add: f2)
      then show ?thesis using lt by simp
    qed
    have s: "settled ?st2 (fst (sortLeft (Suc n) (?st2, False)))"
      using mS hi by (rule sortLeft_settles)
    have "snd (sortLeft (Suc n) (?st2, False)) = True"
      using lt by (simp only: sortLeft_step [OF mS] if_True sortLeft_moved)
    then obtain st3 where st3: "sortLeft (Suc n) (?st2, False) = (st3, True)"
      by (cases "sortLeft (Suc n) (?st2, False)") simp
    have "in' toSum v st = (ranked st3 (medDataPointer st3), advance st3)"
      unfolding unfold n using st3 by (simp add: advance_def)
    then show ?thesis using s st3 by auto
  next
    case False
    have lo: "ranked ?st2 a \<le> data ?st2 ! oldestDataPoint ?st2" if a: "a < ?r" for a
    proof -
      have r: "0 < ?r" "?r - 1 < ?N" using a D(4) by (simp_all add: f2)
      have le: "ranked ?st2 (?r - 1) \<le> data ?st2 ! ?p" using False r by simp
      show ?thesis
      proof (cases "a = ?r - 1")
        case True then show ?thesis using le by (simp add: f2)
      next
        case False
        then have "ranked ?st2 a \<le> ranked ?st2 (?r - 1)" using sb [of a "?r - 1"] a r by simp
        then show ?thesis using le by (simp add: f2)
      qed
    qed
    have left: "(if 0 < ?r then sortLeft ?r (?st2, False) else (?st2, False)) = (?st2, False)"
    proof (cases ?r)
      case 0 then show ?thesis by simp
    next
      case (Suc n)
      then have "mid (Suc n) ?st2" using m by simp
      from sortLeft_step [OF this, of False] show ?thesis using False Suc by (simp add: f2)
    qed
    let ?st4 = "if ?r < ?N - 1 then sortRight (?N - 1) ?r ?st2 else ?st2"
    have eq: "in' toSum v st = (ranked ?st4 (medDataPointer ?st4), advance ?st4)"
      unfolding unfold left by (simp add: f2 advance_def Let_def)
    have "settled ?st2 ?st4"
    proof (cases "?r < ?N - 1")
      case True
      have "settled ?st2 (sortRight (?N - 1) ?r ?st2)"
        using m _ _ lo by (rule sortRight_settles) (use N True in \<open>simp_all add: f2\<close>)
      then show ?thesis using True by simp
    next
      case False
      have "rank_sorted ?st2"
        using m lo
      proof (rule rank_sorted_settled)
        fix b assume "?r < b" "b < medFilterWin ?st2"
        then show "data ?st2 ! oldestDataPoint ?st2 \<le> ranked ?st2 b"
          using False by (simp add: f2)
      qed
      then show ?thesis
        using False D(3) by (simp add: settled_def unmoved_refl order_kept_refl)
    qed
    then show ?thesis using eq by blast
  qed
qed

subsection \<open>The constructed filter\<close>

lemma list_update_upt_drop:
  assumes "n < length xs"
  shows "(ys @ drop n xs)[length ys := x] = ys @ x # drop (Suc n) xs"
proof -
  have "drop n xs = xs ! n # drop (Suc n) xs"
    using assms by (simp add: Cons_nth_drop_Suc)
  then show ?thesis by (simp add: list_update_append)
qed

lemma fold_init_slot:
  assumes "n \<le> length (data st)" "length (sizeMap st) = length (data st)"
    "length (locationMap st) = length (data st)"
  shows "fold (init_slot seed) [0..<n] st =
           st\<lparr> sizeMap := [0..<n] @ drop n (sizeMap st),
               locationMap := [0..<n] @ drop n (locationMap st),
               data := replicate n seed @ drop n (data st) \<rparr>"
  using assms
proof (induction n)
  case 0
  then show ?case by simp
next
  case (Suc n)
  have n: "n < length (sizeMap st)" "n < length (locationMap st)" "n < length (data st)"
    using Suc.prems by simp_all
  have a: "([0..<n] @ drop n (sizeMap st))[n := n] = [0..<n] @ n # drop (Suc n) (sizeMap st)"
    using list_update_upt_drop [OF n(1), of "[0..<n]" n] by simp
  have b: "([0..<n] @ drop n (locationMap st))[n := n] = [0..<n] @ n # drop (Suc n) (locationMap st)"
    using list_update_upt_drop [OF n(2), of "[0..<n]" n] by simp
  have c: "(replicate n seed @ drop n (data st))[n := seed] =
             replicate n seed @ seed # drop (Suc n) (data st)"
    using list_update_upt_drop [OF n(3), of "replicate n seed" seed] by simp
  have "fold (init_slot seed) [0..<Suc n] st =
          init_slot seed n (fold (init_slot seed) [0..<n] st)"
    by simp
  also have "\<dots> = init_slot seed n (st\<lparr> sizeMap := [0..<n] @ drop n (sizeMap st),
               locationMap := [0..<n] @ drop n (locationMap st),
               data := replicate n seed @ drop n (data st) \<rparr>)"
    using Suc by simp
  also have "\<dots> = st\<lparr> sizeMap := [0..<Suc n] @ drop (Suc n) (sizeMap st),
               locationMap := [0..<Suc n] @ drop (Suc n) (locationMap st),
               data := replicate (Suc n) seed @ drop (Suc n) (data st) \<rparr>"
    by (simp add: init_slot_def a b c replicate_append_same)
  finally show ?case .
qed

lemma constrain_window: "3 \<le> nat (constrain sz 3 255)" "nat (constrain sz 3 255) \<le> 255"
  by (auto simp: constrain_def)

lemma MedianFilter_eq:
  "MedianFilter toSum sz seed =
     \<lparr> medFilterWin = nat (constrain sz 3 255),
       medDataPointer = nat (constrain sz 3 255) div 2,
       data = replicate (nat (constrain sz 3 255)) seed,
       sizeMap = [0..<nat (constrain sz 3 255)],
       locationMap = [0..<nat (constrain sz 3 255)],
       oldestDataPoint = nat (constrain sz 3 255) div 2,
       totalSum = of_nat (nat (constrain sz 3 255)) * toSum seed \<rparr>"
  unfolding MedianFilter_def Let_def
  by (subst fold_init_slot) (simp_all add: drop_bit_eq_div)

lemma filter_inv_MedianFilter: "filter_inv (MedianFilter toSum sz seed)"
  using constrain_window [of sz]
  by (simp add: MedianFilter_eq filter_inv_def maps_inverse_def rank_sorted_def ranked_def)

subsection \<open>Ring buffer, cursor and sum\<close>

lemma sortLeft_unmoved: "unmoved st (fst (sortLeft i (st, m)))"
proof (induction i arbitrary: st m)
  case 0
  then show ?case by (simp add: unmoved_refl)
next
  case (Suc n)
  show ?case
  proof (cases "data st ! oldestDataPoint st < data st ! (sizeMap st ! n)")
    case True
    then obtain st4 where st4: "sortLeft (Suc n) (st, m) = sortLeft n (st4, True)"
      and u: "unmoved st st4"
      by (simp add: Let_def unmoved_def)
    show ?thesis
      unfolding st4 using u Suc.IH [of st4 True] by (rule unmoved_trans)
  next
    case False
    then show ?thesis by (simp add: unmoved_refl)
  qed
qed

lemma sortRight_unmoved: "unmoved st (sortRight rightEdge i st)"
proof (induction "rightEdge - i" arbitrary: i st)
  case 0
  then show ?case by (subst sortRight.simps) (simp add: unmoved_refl)
next
  case (Suc k)
  show ?case
  proof (cases "data st ! (sizeMap st ! (i + 1)) < data st ! oldestDataPoint st")
    case True
    have lt: "i < rightEdge" using Suc.hyps(2) by simp
    have "\<exists>st4. sortRight rightEdge i st = sortRight rightEdge (i + 1) st4 \<and> unmoved st st4"
      apply (subst sortRight.simps)
      using True lt apply (simp add: Let_def)
      apply (rule exI, rule conjI, rule refl)
      apply (simp add: unmoved_def)
      done
    then obtain st4 where st4: "sortRight rightEdge i st = sortRight rightEdge (i + 1) st4"
      and u: "unmoved st st4"
      by blast
    have "unmoved st4 (sortRight rightEdge (i + 1) st4)"
      using Suc.hyps(2) by (intro Suc.hyps(1)) simp
    with u show ?thesis unfolding st4 by (rule unmoved_trans)
  next
    case False
    then show ?thesis by (subst sortRight.simps) (simp add: unmoved_refl Let_def)
  qed
qed

text \<open>What \<open>in\<close> does to the ring buffer, the cursor and the sum, in any state.\<close>

lemma in'_frame:
  "medFilterWin (snd (in' toSum v st)) = medFilterWin st"
  "medDataPointer (snd (in' toSum v st)) = medDataPointer st"
  "data (snd (in' toSum v st)) = (data st)[oldestDataPoint st := v]"
  "totalSum (snd (in' toSum v st)) =
     totalSum st + (toSum v - toSum (data st ! oldestDataPoint st))"
  "oldestDataPoint (snd (in' toSum v st)) =
     (if oldestDataPoint st + 1 = medFilterWin st then 0 else oldestDataPoint st + 1)"
  "fst (in' toSum v st) =
     data (snd (in' toSum v st)) ! (sizeMap (snd (in' toSum v st)) ! medDataPointer st)"
proof -
  define st2 where "st2 = stored toSum v st"
  define X where "X = (if 0 < locationMap st2 ! oldestDataPoint st2
            then sortLeft (locationMap st2 ! oldestDataPoint st2) (st2, False)
            else (st2, False))"
  define st3 where "st3 = fst X"
  define dataMoved where "dataMoved = snd X"
  define st4 where "st4 = (if \<not> dataMoved \<and>
                        locationMap st3 ! oldestDataPoint st3 < (medFilterWin st + 255) mod 256
                     then sortRight ((medFilterWin st + 255) mod 256)
                            (locationMap st3 ! oldestDataPoint st3) st3
                     else st3)"
  have X: "X = (st3, dataMoved)" by (simp add: st3_def dataMoved_def)
  have "unmoved st2 st3"
    unfolding st3_def X_def using sortLeft_unmoved [of st2] by (simp add: unmoved_refl)
  moreover have "unmoved st3 st4"
    unfolding st4_def using sortRight_unmoved [of st3] by (simp add: unmoved_refl)
  ultimately have u: "unmoved st2 st4" by (rule unmoved_trans)
  have "in' toSum v st = (case X of (st3, dataMoved) \<Rightarrow>
          let st4 = (if \<not> dataMoved \<and>
                        locationMap st3 ! oldestDataPoint st3 < (medFilterWin st + 255) mod 256
                     then sortRight ((medFilterWin st + 255) mod 256)
                            (locationMap st3 ! oldestDataPoint st3) st3
                     else st3)
          in (data st4 ! (sizeMap st4 ! medDataPointer st4), advance st4))"
    unfolding X_def st2_def by (rule in'_unfold)
  then have eq: "in' toSum v st = (data st4 ! (sizeMap st4 ! medDataPointer st4), advance st4)"
    unfolding X st4_def by (simp add: Let_def)
  show "medFilterWin (snd (in' toSum v st)) = medFilterWin st"
    "medDataPointer (snd (in' toSum v st)) = medDataPointer st"
    "data (snd (in' toSum v st)) = (data st)[oldestDataPoint st := v]"
    "totalSum (snd (in' toSum v st)) =
       totalSum st + (toSum v - toSum (data st ! oldestDataPoint st))"
    "oldestDataPoint (snd (in' toSum v st)) =
       (if oldestDataPoint st + 1 = medFilterWin st then 0 else oldestDataPoint st + 1)"
    "fst (in' toSum v st) =
       data (snd (in' toSum v st)) ! (sizeMap (snd (in' toSum v st)) ! medDataPointer st)"
    using u unfolding eq st2_def by (simp_all add: unmoved_def advance_def stored_def)
qed

lemma filter_inv_in':
  assumes "filter_inv st"
  shows "filter_inv (snd (in' toSum v st))"
proof -
  obtain st' where s: "settled (stored toSum v st) st'"
    and eq: "in' toSum v st = (ranked st' (medDataPointer st'), advance st')"
    using in'_settles [OF assms] by blast
  have u: "unmoved (stored toSum v st) st'" and inv: "maps_inverse st'" and rs: "rank_sorted st'"
    using s by (simp_all add: settled_def)
  have "maps_inverse (advance st')" "rank_sorted (advance st')"
    using inv rs by (simp_all add: advance_def maps_inverse_def rank_sorted_def ranked_def)
  then show ?thesis
    using assms u unfolding eq
    by (simp add: filter_inv_def unmoved_def advance_def stored_def)
qed

lemma feed_snoc: "feed toSum (vs @ [v]) st = snd (in' toSum v (feed toSum vs st))"
  by (simp add: feed_def)

lemma filter_inv_feed: "filter_inv st \<Longrightarrow> filter_inv (feed toSum vs st)"
  by (induction vs rule: rev_induct) (simp_all add: feed_snoc filter_inv_in', simp add: feed_def)

subsection \<open>The ring buffer holds the window\<close>

lemma length_window [simp]: "length (window n seed vs) = n"
  by (simp add: window_def)

lemma window_snoc:
  assumes "0 < n"
  shows "window n seed (vs @ [v]) = tl (window n seed vs) @ [v]"
proof -
  let ?ys = "replicate n seed @ vs"
  have "drop (Suc (length vs)) (?ys @ [v]) = drop (Suc (length vs)) ?ys @ [v]"
    using assms by (subst drop_append) simp
  also have "drop (Suc (length vs)) ?ys = tl (drop (length vs) ?ys)"
    by (simp only: drop_Suc tl_drop)
  finally show ?thesis by (simp add: window_def)
qed

lemma ring_step:
  assumes "p < length xs"
  shows "drop (if p + 1 = length xs then 0 else p + 1) (xs[p := v]) @
         take (if p + 1 = length xs then 0 else p + 1) (xs[p := v]) =
         tl (drop p xs @ take p xs) @ [v]"
proof -
  have d: "drop p xs = xs ! p # drop (Suc p) xs"
    using assms by (simp add: Cons_nth_drop_Suc)
  have t: "take (Suc p) (xs[p := v]) = take p xs @ [v]"
    using assms by (simp add: take_Suc_conv_app_nth)
  show ?thesis
  proof (cases "p + 1 = length xs")
    case True
    then have "xs[p := v] = take p xs @ [v]"
      using t by (metis Suc_eq_plus1 length_list_update order_refl take_all)
    then show ?thesis using True d by simp
  next
    case False
    then show ?thesis using d t by simp
  qed
qed

lemma feed_fields:
  "medFilterWin (feed toSum vs st) = medFilterWin st"
  "medDataPointer (feed toSum vs st) = medDataPointer st"
  by (induction vs rule: rev_induct) (simp_all add: feed_snoc in'_frame, simp_all add: feed_def)

lemma feed_ring:
  fixes toSum :: "'a :: {linorder, zero} \<Rightarrow> 's :: comm_ring_1"
  shows "drop (oldestDataPoint (feed toSum vs (MedianFilter toSum sz seed)))
           (data (feed toSum vs (MedianFilter toSum sz seed))) @
         take (oldestDataPoint (feed toSum vs (MedianFilter toSum sz seed)))
           (data (feed toSum vs (MedianFilter toSum sz seed))) =
         window (nat (constrain sz 3 255)) seed vs"
proof (induction vs rule: rev_induct)
  case Nil
  show ?case by (simp add: feed_def MedianFilter_eq window_def flip: replicate_add)
next
  case (snoc v vs)
  let ?s = "feed toSum vs (MedianFilter toSum sz seed)"
  have inv: "filter_inv ?s"
    by (intro filter_inv_feed filter_inv_MedianFilter)
  have N: "medFilterWin ?s = nat (constrain sz 3 255)"
    by (simp add: feed_fields MedianFilter_eq)
  have p: "oldestDataPoint ?s < length (data ?s)" and len: "length (data ?s) = medFilterWin ?s"
    using inv by (simp_all add: filter_inv_def)
  have "0 < nat (constrain sz 3 255)" using constrain_window(1) [of sz] by simp
  then show ?case
    unfolding feed_snoc in'_frame using ring_step [OF p, of v] snoc.IH len
    by (simp add: window_snoc N)
qed

lemma mset_ring: "mset (drop p xs @ take p xs) = mset xs"
  by (metis append_take_drop_id mset_append union_commute)

lemma feed_mset:
  fixes toSum :: "'a :: {linorder, zero} \<Rightarrow> 's :: comm_ring_1"
  shows "mset (data (feed toSum vs (MedianFilter toSum sz seed))) =
         mset (window (nat (constrain sz 3 255)) seed vs)"
  using feed_ring [of toSum vs sz seed, THEN arg_cong, of mset]
  by (simp only: mset_ring)

subsection \<open>Ranks and sorting\<close>

lemma sizeMap_perm:
  assumes "maps_inverse st"
  shows "mset (sizeMap st) = mset [0..<medFilterWin st]"
proof -
  note D = maps_inverseD [OF assms]
  have d: "distinct (sizeMap st)"
    unfolding distinct_conv_nth using maps_inverse_inj [OF assms] D(1) by auto
  have "set (sizeMap st) \<subseteq> {0..<medFilterWin st}"
    using D(1,5) by (auto simp: set_conv_nth)
  moreover have "card (set (sizeMap st)) = card {0..<medFilterWin st}"
    using d D(1) by (simp add: distinct_card)
  ultimately have "set (sizeMap st) = {0..<medFilterWin st}"
    by (intro card_subset_eq) simp_all
  then show ?thesis
    using d by (intro iffD1 [OF set_eq_iff_mset_eq_distinct]) simp_all
qed

lemma locationMap_perm:
  assumes "maps_inverse st"
  shows "mset (locationMap st) = mset [0..<medFilterWin st]"
proof -
  note D = maps_inverseD [OF assms]
  have d: "distinct (locationMap st)"
    unfolding distinct_conv_nth using maps_inverse_inj_loc [OF assms] D(2) by auto
  have "set (locationMap st) \<subseteq> {0..<medFilterWin st}"
    using D(2,3) by (auto simp: set_conv_nth)
  moreover have "card (set (locationMap st)) = card {0..<medFilterWin st}"
    using d D(2) by (simp add: distinct_card)
  ultimately have "set (locationMap st) = {0..<medFilterWin st}"
    by (intro card_subset_eq) simp_all
  then show ?thesis
    using d by (intro iffD1 [OF set_eq_iff_mset_eq_distinct]) simp_all
qed

lemma ranked_upt: 
  assumes "length (sizeMap st) = medFilterWin st"
  shows "map (ranked st) [0..<medFilterWin st] = map ((!) (data st)) (sizeMap st)"
  using assms by (intro nth_equalityI) (simp_all add: ranked_def)

lemma sorted_ranked:
  "rank_sorted st \<Longrightarrow> sorted (map (ranked st) [0..<medFilterWin st])"
  by (simp add: sorted_iff_nth_mono_less rank_sorted_def)

lemma ranked_sort:
  assumes "filter_inv st"
  shows "map (ranked st) [0..<medFilterWin st] = sort (data st)"
proof -
  have inv: "maps_inverse st" and rs: "rank_sorted st" and len: "length (data st) = medFilterWin st"
    using assms by (simp_all add: filter_inv_def)
  have "mset (map ((!) (data st)) (sizeMap st)) = image_mset ((!) (data st)) (mset (sizeMap st))"
    by simp
  also have "\<dots> = image_mset ((!) (data st)) (mset [0..<medFilterWin st])"
    by (simp only: sizeMap_perm [OF inv])
  also have "\<dots> = mset (map ((!) (data st)) [0..<length (data st)])"
    by (simp only: mset_map len)
  also have "\<dots> = mset (data st)"
    by (simp only: map_nth)
  finally have "mset (map (ranked st) [0..<medFilterWin st]) = mset (data st)"
    using ranked_upt [of st] maps_inverseD(1) [OF inv] by simp
  then show ?thesis
    using sorted_ranked [OF rs] by (intro properties_for_sort [symmetric])
qed

lemma sort_cong_mset: "mset xs = mset ys \<Longrightarrow> sort xs = sort ys"
  by (simp add: properties_for_sort)

lemma sorted_first_Min:
  assumes "sorted xs" "xs \<noteq> []"
  shows "xs ! 0 = Min (set xs)"
proof (rule Min_eqI [symmetric])
  show "finite (set xs)" by simp
  show "xs ! 0 \<in> set xs" using assms(2) by simp
  fix y assume "y \<in> set xs"
  then obtain i where "i < length xs" "xs ! i = y" by (auto simp: in_set_conv_nth)
  then show "xs ! 0 \<le> y" using assms(1) sorted_nth_mono [of xs 0 i] by auto
qed

lemma sorted_last_Max:
  assumes "sorted xs" "xs \<noteq> []"
  shows "xs ! (length xs - 1) = Max (set xs)"
proof (rule Max_eqI [symmetric])
  show "finite (set xs)" by simp
  show "xs ! (length xs - 1) \<in> set xs" using assms(2) by simp
  fix y assume "y \<in> set xs"
  then obtain i where "i < length xs" "xs ! i = y" by (auto simp: in_set_conv_nth)
  then show "y \<le> xs ! (length xs - 1)"
    using assms(1) sorted_nth_mono [of xs i "length xs - 1"] by auto
qed

text \<open>The running sum.\<close>

lemma sum_list_map_update:
  fixes f :: "'a \<Rightarrow> 's :: comm_ring_1"
  assumes "p < length xs"
  shows "sum_list (map f (xs[p := v])) = sum_list (map f xs) + (f v - f (xs ! p))"
proof -
  have "xs = take p xs @ xs ! p # drop (Suc p) xs"
    using assms by (simp add: id_take_nth_drop [symmetric])
  then have "sum_list (map f xs) = sum_list (map f (take p xs)) + f (xs ! p) + sum_list (map f (drop (Suc p) xs))"
    by (metis (no_types, lifting) add.assoc list.simps(9) map_append sum_list.Cons sum_list.append)
  moreover have "xs[p := v] = take p xs @ v # drop (Suc p) xs"
    using assms by (simp add: upd_conv_take_nth_drop)
  then have "sum_list (map f (xs[p := v])) = sum_list (map f (take p xs)) + f v + sum_list (map f (drop (Suc p) xs))"
    by (simp add: add.assoc)
  ultimately show ?thesis by (simp add: algebra_simps)
qed

lemma totalSum_feed:
  fixes toSum :: "'a :: {linorder, zero} \<Rightarrow> 's :: comm_ring_1"
  shows "totalSum (feed toSum vs (MedianFilter toSum sz seed)) =
         sum_list (map toSum (data (feed toSum vs (MedianFilter toSum sz seed))))"
proof (induction vs rule: rev_induct)
  case Nil
  show ?case by (simp add: feed_def MedianFilter_eq sum_list_replicate map_replicate)
next
  case (snoc v vs)
  let ?s = "feed toSum vs (MedianFilter toSum sz seed)"
  have "filter_inv ?s"
    by (intro filter_inv_feed filter_inv_MedianFilter)
  then have p: "oldestDataPoint ?s < length (data ?s)"
    by (simp add: filter_inv_def)
  show ?case
    unfolding feed_snoc in'_frame using snoc.IH sum_list_map_update [OF p, of toSum v]
    by simp
qed

lemma sum_list_cong_mset:
  fixes f :: "'a \<Rightarrow> 's :: comm_ring_1"
  assumes "mset xs = mset ys"
  shows "sum_list (map f xs) = sum_list (map f ys)"
proof -
  have "sum_list (map f xs) = sum_mset (image_mset f (mset xs))"
    by (simp flip: sum_mset_sum_list)
  also have "\<dots> = sum_mset (image_mset f (mset ys))" using assms by simp
  also have "\<dots> = sum_list (map f ys)" by (simp flip: sum_mset_sum_list)
  finally show ?thesis .
qed

lemma fold_add_zero:
  fixes a :: "'s :: comm_ring_1"
  assumes "\<And>i. i \<in> set xs \<Longrightarrow> f i = 0"
  shows "fold (\<lambda>i acc. acc + f i) xs a = a"
  using assms by (induction xs arbitrary: a) simp_all

subsection \<open>Square roots\<close>

lemma sqrt_7_2: "1 \<le> sqrt (7 / 2)" "sqrt (7 / 2) < 2"
proof -
  show "1 \<le> sqrt (7 / 2)" by simp
  have "sqrt (7 / 2) < sqrt 4" by (simp only: real_sqrt_less_iff)
  then show "sqrt (7 / 2) < 2" by simp
qed

lemma sqrt_3: "3 / 2 \<le> sqrt 3" "sqrt 3 < 5 / 2"
proof -
  have "sqrt ((3 / 2)\<^sup>2) \<le> sqrt 3" by (simp only: real_sqrt_le_iff, simp add: power2_eq_square)
  then show "3 / 2 \<le> sqrt 3" by simp
  have "sqrt 3 < sqrt ((5 / 2)\<^sup>2)" by (simp only: real_sqrt_less_iff, simp add: power2_eq_square)
  then show "sqrt 3 < 5 / 2" by simp
qed

subsection \<open>Truncating division\<close>


subsection \<open>Filters reached from the constructor\<close>

lemma filter_inv_reached:
  fixes toSum :: "'a :: {linorder, zero} \<Rightarrow> 's :: comm_ring_1"
  shows "filter_inv (feed toSum vs (MedianFilter toSum sz seed))"
  by (intro filter_inv_feed filter_inv_MedianFilter)

lemma reached_ranks:
  fixes toSum :: "'a :: {linorder, zero} \<Rightarrow> 's :: comm_ring_1"
  shows "map (ranked (feed toSum vs (MedianFilter toSum sz seed))) [0..<nat (constrain sz 3 255)] =
         sort (window (nat (constrain sz 3 255)) seed vs)"
proof -
  let ?st = "feed toSum vs (MedianFilter toSum sz seed)"
  have N: "medFilterWin ?st = nat (constrain sz 3 255)"
    by (simp add: feed_fields MedianFilter_eq)
  have "map (ranked ?st) [0..<medFilterWin ?st] = sort (data ?st)"
    using filter_inv_reached by (rule ranked_sort)
  also have "\<dots> = sort (window (nat (constrain sz 3 255)) seed vs)"
    using feed_mset by (rule sort_cong_mset)
  finally show ?thesis unfolding N .
qed

lemma reached_rank:
  fixes toSum :: "'a :: {linorder, zero} \<Rightarrow> 's :: comm_ring_1"
  assumes "r < nat (constrain sz 3 255)"
  shows "ranked (feed toSum vs (MedianFilter toSum sz seed)) r =
         sort (window (nat (constrain sz 3 255)) seed vs) ! r"
  using reached_ranks [of toSum vs sz seed, THEN arg_cong, of "\<lambda>xs. xs ! r"] assms
  by simp

lemma in'_returns_rank:
  fixes toSum :: "'a :: {linorder, zero} \<Rightarrow> 's :: comm_ring_1"
  shows "fst (in' toSum v (feed toSum vs (MedianFilter toSum sz seed))) =
         sort (window (nat (constrain sz 3 255)) seed (vs @ [v])) ! (nat (constrain sz 3 255) div 2)"
proof -
  let ?N = "nat (constrain sz 3 255)"
  let ?st = "feed toSum vs (MedianFilter toSum sz seed)"
  have "3 \<le> ?N" by (rule constrain_window)
  then have r: "?N div 2 < ?N" by simp
  have m: "medDataPointer ?st = ?N div 2"
    by (simp add: feed_fields MedianFilter_eq)
  have "fst (in' toSum v ?st) = ranked (feed toSum (vs @ [v]) (MedianFilter toSum sz seed)) (?N div 2)"
    by (simp add: in'_frame(6) m feed_snoc ranked_def)
  then show ?thesis using reached_rank [OF r] by simp
qed

lemma constrain_id: "3 \<le> sz \<Longrightarrow> sz \<le> 255 \<Longrightarrow> constrain sz 3 255 = sz"
  by (simp add: constrain_def)

lemma in'_order_kept:
  fixes st :: "('a :: linorder, 's :: comm_ring_1) MedianFilter" and toSum v
  assumes inv: "filter_inv st"
  defines "st' \<equiv> snd (in' toSum v st)" and "p \<equiv> oldestDataPoint st"
  shows "j < medFilterWin st \<Longrightarrow> k < medFilterWin st \<Longrightarrow> j \<noteq> p \<Longrightarrow> k \<noteq> p \<Longrightarrow>
           (locationMap st' ! j < locationMap st' ! k \<longleftrightarrow> locationMap st ! j < locationMap st ! k)"
    and "j < medFilterWin st \<Longrightarrow> j \<noteq> p \<Longrightarrow> data st ! j = v \<Longrightarrow>
           (locationMap st' ! p < locationMap st' ! j \<longleftrightarrow> locationMap st ! p < locationMap st ! j)"
proof -
  obtain st4 where s: "settled (stored toSum v st) st4"
    and eq: "in' toSum v st = (ranked st4 (medDataPointer st4), advance st4)"
    using in'_settles [OF inv] by blast
  have ok: "order_kept (stored toSum v st) st4" using s by (simp add: settled_def)
  have lm: "locationMap st' = locationMap st4"
    by (simp add: st'_def eq advance_def)
  have pl: "p < length (data st)" using inv by (simp add: filter_inv_def p_def)
  have f: "medFilterWin (stored toSum v st) = medFilterWin st"
    "oldestDataPoint (stored toSum v st) = p"
    "locationMap (stored toSum v st) = locationMap st"
    "data (stored toSum v st) ! p = v"
    "\<And>j. j \<noteq> p \<Longrightarrow> data (stored toSum v st) ! j = data st ! j"
    using pl by (simp_all add: stored_def p_def)
  show "j < medFilterWin st \<Longrightarrow> k < medFilterWin st \<Longrightarrow> j \<noteq> p \<Longrightarrow> k \<noteq> p \<Longrightarrow>
           (locationMap st' ! j < locationMap st' ! k \<longleftrightarrow> locationMap st ! j < locationMap st ! k)"
    using ok unfolding order_kept_def f lm by blast
  show "j < medFilterWin st \<Longrightarrow> j \<noteq> p \<Longrightarrow> data st ! j = v \<Longrightarrow>
           (locationMap st' ! p < locationMap st' ! j \<longleftrightarrow> locationMap st ! p < locationMap st ! j)"
    using ok f(5) [of j] unfolding order_kept_def f(1-4) lm by metis
qed

lemma diffSquareSum_zero:
  fixes toSum :: "'a \<Rightarrow> 's :: comm_ring_1"
  assumes "\<And>i. i < medFilterWin st \<Longrightarrow> toSum (data st ! i) = mean"
  shows "diffSquareSum toSum mean st = 0"
  unfolding diffSquareSum_def Let_def
  by (rule fold_add_zero) (simp add: assms)

lemma constant_window:
  fixes toSum :: "'a :: {linorder, zero} \<Rightarrow> 's :: comm_ring_1"
  assumes "\<forall>x \<in> set (window (nat (constrain sz 3 255)) seed vs). x = c"
  defines "st \<equiv> feed toSum vs (MedianFilter toSum sz seed)"
  shows "medFilterWin st = nat (constrain sz 3 255)"
    and "data st = replicate (nat (constrain sz 3 255)) c"
    and "totalSum st = of_nat (nat (constrain sz 3 255)) * toSum c"
proof -
  let ?N = "nat (constrain sz 3 255)"
  show N: "medFilterWin st = ?N"
    by (simp add: st_def feed_fields MedianFilter_eq)
  have "filter_inv st" unfolding st_def by (rule filter_inv_reached)
  then have len: "length (data st) = ?N" using N by (simp add: filter_inv_def)
  have "set (data st) = set (window ?N seed vs)"
    unfolding st_def using feed_mset by (rule mset_eq_setD)
  then have "\<forall>x \<in> set (data st). x = c" using assms(1) by simp
  then have "replicate (length (data st)) c = data st"
    by (intro replicate_length_same) simp
  then show d: "data st = replicate ?N c" using len by simp
  have "totalSum st = sum_list (map toSum (data st))"
    unfolding st_def by (rule totalSum_feed)
  then show "totalSum st = of_nat ?N * toSum c"
    by (simp add: d sum_list_replicate map_replicate)
qed

subsection \<open>Rounding to a double\<close>

lemma round_even_bounds: "r - 1 \<le> of_int (round_even r)" "of_int (round_even r) \<le> r + 1"
  unfolding round_even_def Let_def by (auto; linarith)+

lemma fl_zero [simp]: "fl 0 = 0"
  by (simp add: fl_def)

lemma fl_eq:
  assumes "- 1022 \<le> e" "2 powr of_int e \<le> \<bar>x\<bar>" "\<bar>x\<bar> < 2 powr (of_int e + 1)"
  shows "fl x = of_int (round_even (x * 2 powr (52 - of_int e))) * 2 powr (of_int e - 52)"
proof -
  have "(0 :: real) < 2 powr of_int e" by simp
  then have x: "0 < \<bar>x\<bar>" using assms(2) by (rule less_le_trans)
  then have "\<lfloor>log 2 \<bar>x\<bar>\<rfloor> = e"
    using assms(2,3) by (simp only: floor_log_eq_powr_iff [of "\<bar>x\<bar>" 2 e]) simp
  then have "max \<lfloor>log 2 \<bar>x\<bar>\<rfloor> (- 1022) = e"
    using assms(1) by simp
  then show ?thesis
    using x by (simp add: fl_def)
qed

lemma fl_examples:
  "fl 1 = 1" "fl 2 = 2" "fl 3 = 3" "fl (3 / 2) = 3 / 2" "fl (1 / 2) = 1 / 2"
  "fl 100000000000000000 = 100000000000000000"
  "fl 100000000000000001 = 100000000000000000"
  "fl (- 99999999999999999) = - 100000000000000000"
proof -
  show "fl 1 = 1" using fl_eq [of 0 1] by (simp add: round_even_def powr_neg_numeral)
  show "fl 2 = 2" using fl_eq [of 1 2] by (simp add: round_even_def powr_neg_numeral)
  show "fl 3 = 3" using fl_eq [of 1 3] by (simp add: round_even_def powr_neg_numeral)
  show "fl (3 / 2) = 3 / 2" using fl_eq [of 0 "3 / 2"] by (simp add: round_even_def powr_neg_numeral)
  show "fl (1 / 2) = 1 / 2" using fl_eq [of "- 1" "1 / 2"] by (simp add: round_even_def powr_neg_numeral)
  show "fl 100000000000000000 = 100000000000000000"
    using fl_eq [of 56 100000000000000000] by (simp add: round_even_def powr_neg_numeral)
  show "fl 100000000000000001 = 100000000000000000"
    using fl_eq [of 56 100000000000000001] by (simp add: round_even_def powr_neg_numeral)
  show "fl (- 99999999999999999) = - 100000000000000000"
    using fl_eq [of 56 "- 99999999999999999"] by (simp add: round_even_def powr_neg_numeral)
qed

lemma fold_fixed:
  assumes "\<And>i. i \<in> set xs \<Longrightarrow> g i a = a"
  shows "fold g xs a = a"
  using assms by (induction xs) simp_all

lemma sqrt_half_bounds: "1 / 2 \<le> sqrt (1 / 2)" "sqrt (1 / 2) \<le> 3 / 4"
proof -
  have "sqrt ((1 / 2)\<^sup>2) \<le> sqrt (1 / 2)"
    by (simp only: real_sqrt_le_iff, simp add: power2_eq_square)
  then show "1 / 2 \<le> sqrt (1 / 2)" by simp
  have "sqrt (1 / 2) \<le> sqrt ((3 / 4)\<^sup>2)"
    by (simp only: real_sqrt_le_iff, simp add: power2_eq_square)
  then show "sqrt (1 / 2) \<le> 3 / 4" by simp
qed

lemma fl_sqrt_half: "0 < fl (sqrt (1 / 2))" "fl (sqrt (1 / 2)) < 1"
proof -
  let ?x = "sqrt (1 / 2)"
  have e: "fl ?x = of_int (round_even (?x * 2 ^ 53)) / 2 ^ 53"
    using fl_eq [of "- 1" ?x] sqrt_half_bounds by (simp add: powr_neg_numeral)
  have "?x * 2 ^ 53 - 1 \<le> of_int (round_even (?x * 2 ^ 53))"
    "of_int (round_even (?x * 2 ^ 53)) \<le> ?x * 2 ^ 53 + 1"
    by (rule round_even_bounds)+
  then have "?x - 1 / 2 ^ 53 \<le> fl ?x" "fl ?x \<le> ?x + 1 / 2 ^ 53"
    unfolding e by (simp_all add: field_simps)
  then show "0 < fl ?x" "fl ?x < 1"
    using sqrt_half_bounds by simp_all
qed

lemma fl_sqrt_two: "1 < fl (sqrt 2)"
proof -
  have b: "7 / 5 \<le> sqrt 2" "sqrt 2 < 2"
  proof -
    have "sqrt ((7 / 5)\<^sup>2) \<le> sqrt 2"
      by (simp only: real_sqrt_le_iff, simp add: power2_eq_square)
    then show "7 / 5 \<le> sqrt 2" by simp
    have "sqrt 2 < sqrt (2\<^sup>2)"
      by (simp only: real_sqrt_less_iff, simp)
    then show "sqrt 2 < 2" by simp
  qed
  have e: "fl (sqrt 2) = of_int (round_even (sqrt 2 * 2 ^ 52)) / 2 ^ 52"
    using fl_eq [of 0 "sqrt 2"] b by (simp add: powr_neg_numeral)
  have "sqrt 2 * 2 ^ 52 - 1 \<le> of_int (round_even (sqrt 2 * 2 ^ 52))"
    by (rule round_even_bounds)
  then have "sqrt 2 - 1 / 2 ^ 52 \<le> fl (sqrt 2)"
    unfolding e by (simp add: field_simps)
  then show ?thesis using b(1) by simp
qed

lemma truncate_fl_sqrt_half: "truncate_double (fl (sqrt (1 / 2))) = 0"
  using fl_sqrt_half by (simp add: truncate_double_def floor_eq_iff)

subsection \<open>The filter of doubles\<close>

lemma in_double_unfold:
  "in_double v st =
     (case (if 0 < locationMap (stored_double v st) ! oldestDataPoint (stored_double v st)
            then sortLeft (locationMap (stored_double v st) ! oldestDataPoint (stored_double v st))
                   (stored_double v st, False)
            else (stored_double v st, False)) of
        (st3, dataMoved) \<Rightarrow>
          let st4 = (if \<not> dataMoved \<and>
                        locationMap st3 ! oldestDataPoint st3 < (medFilterWin st + 255) mod 256
                     then sortRight ((medFilterWin st + 255) mod 256)
                            (locationMap st3 ! oldestDataPoint st3) st3
                     else st3)
          in (data st4 ! (sizeMap st4 ! medDataPointer st4), advance st4))"
  unfolding in_double_def Let_def stored_double_def advance_def
  by (simp split: prod.splits)

lemma in_double_frame:
  "medFilterWin (snd (in_double v st)) = medFilterWin st"
  "data (snd (in_double v st)) = (data st)[oldestDataPoint st := v]"
  "totalSum (snd (in_double v st)) =
     fl (totalSum st + fl (v - data st ! oldestDataPoint st))"
  "oldestDataPoint (snd (in_double v st)) =
     (if oldestDataPoint st + 1 = medFilterWin st then 0 else oldestDataPoint st + 1)"
proof -
  define st2 where "st2 = stored_double v st"
  define X where "X = (if 0 < locationMap st2 ! oldestDataPoint st2
            then sortLeft (locationMap st2 ! oldestDataPoint st2) (st2, False)
            else (st2, False))"
  define st3 where "st3 = fst X"
  define dataMoved where "dataMoved = snd X"
  define st4 where "st4 = (if \<not> dataMoved \<and>
                        locationMap st3 ! oldestDataPoint st3 < (medFilterWin st + 255) mod 256
                     then sortRight ((medFilterWin st + 255) mod 256)
                            (locationMap st3 ! oldestDataPoint st3) st3
                     else st3)"
  have X: "X = (st3, dataMoved)" by (simp add: st3_def dataMoved_def)
  have "unmoved st2 st3"
    unfolding st3_def X_def using sortLeft_unmoved [of st2] by (simp add: unmoved_refl)
  moreover have "unmoved st3 st4"
    unfolding st4_def using sortRight_unmoved [of st3] by (simp add: unmoved_refl)
  ultimately have u: "unmoved st2 st4" by (rule unmoved_trans)
  have "in_double v st = (case X of (st3, dataMoved) \<Rightarrow>
          let st4 = (if \<not> dataMoved \<and>
                        locationMap st3 ! oldestDataPoint st3 < (medFilterWin st + 255) mod 256
                     then sortRight ((medFilterWin st + 255) mod 256)
                            (locationMap st3 ! oldestDataPoint st3) st3
                     else st3)
          in (data st4 ! (sizeMap st4 ! medDataPointer st4), advance st4))"
    unfolding X_def st2_def by (rule in_double_unfold)
  then have eq: "in_double v st = (data st4 ! (sizeMap st4 ! medDataPointer st4), advance st4)"
    unfolding X st4_def by (simp add: Let_def)
  show "medFilterWin (snd (in_double v st)) = medFilterWin st"
    "data (snd (in_double v st)) = (data st)[oldestDataPoint st := v]"
    "totalSum (snd (in_double v st)) =
       fl (totalSum st + fl (v - data st ! oldestDataPoint st))"
    "oldestDataPoint (snd (in_double v st)) =
       (if oldestDataPoint st + 1 = medFilterWin st then 0 else oldestDataPoint st + 1)"
    using u unfolding eq st2_def by (simp_all add: unmoved_def advance_def stored_double_def)
qed

lemma MedianFilter_double_eq:
  "MedianFilter_double sz seed =
     \<lparr> medFilterWin = nat (constrain sz 3 255),
       medDataPointer = nat (constrain sz 3 255) div 2,
       data = replicate (nat (constrain sz 3 255)) seed,
       sizeMap = [0..<nat (constrain sz 3 255)],
       locationMap = [0..<nat (constrain sz 3 255)],
       oldestDataPoint = nat (constrain sz 3 255) div 2,
       totalSum = fl (real (nat (constrain sz 3 255)) * seed) \<rparr>"
  unfolding MedianFilter_double_def Let_def
  by (subst fold_init_slot) (simp_all add: drop_bit_eq_div)

lemma feed_double_Nil: "feed_double [] st = st"
  by (simp add: feed_double_def)

lemma feed_double_Cons: "feed_double (v # vs) st = feed_double vs (snd (in_double v st))"
  by (simp add: feed_double_def)

lemma feed_double_snoc: "feed_double (vs @ [v]) st = snd (in_double v (feed_double vs st))"
  by (simp add: feed_double_def)

lemma feed_double_fields:
  "medFilterWin (feed_double vs st) = medFilterWin st"
  "length (data (feed_double vs st)) = length (data st)"
  by (induction vs rule: rev_induct) (simp_all add: feed_double_snoc in_double_frame feed_double_Nil)

lemma in_double_step:
  assumes "medFilterWin st = n" "data st = xs" "oldestDataPoint st = p" "totalSum st = t"
  shows "medFilterWin (snd (in_double v st)) = n \<and>
         data (snd (in_double v st)) = xs[p := v] \<and>
         oldestDataPoint (snd (in_double v st)) = (if p + 1 = n then 0 else p + 1) \<and>
         totalSum (snd (in_double v st)) = fl (t + fl (v - xs ! p))"
  using assms by (simp add: in_double_frame)

lemma drift_state:
  defines "st \<equiv> feed_double [100000000000000000, 1, 1, 1] (MedianFilter_double 3 0)"
  shows "medFilterWin st = 3" "data st = [1, 1, 1]" "totalSum st = 0"
proof -
  let ?s0 = "MedianFilter_double 3 0"
  have c: "nat (constrain 3 3 255) = 3" by (simp add: constrain_def)
  have s0: "medFilterWin ?s0 = 3" "data ?s0 = [0, 0, 0]" "oldestDataPoint ?s0 = 1" "totalSum ?s0 = 0"
    by (simp_all add: MedianFilter_double_eq c numeral_3_eq_3)
  let ?s1 = "snd (in_double 100000000000000000 ?s0)"
  have s1: "medFilterWin ?s1 = 3" "data ?s1 = [0, 100000000000000000, 0]"
    "oldestDataPoint ?s1 = 2" "totalSum ?s1 = 100000000000000000"
    using in_double_step [OF s0, of 100000000000000000] by (simp_all add: fl_examples)
  let ?s2 = "snd (in_double 1 ?s1)"
  have s2: "medFilterWin ?s2 = 3" "data ?s2 = [0, 100000000000000000, 1]"
    "oldestDataPoint ?s2 = 0" "totalSum ?s2 = 100000000000000000"
    using in_double_step [OF s1, of 1] by (simp_all add: fl_examples)
  let ?s3 = "snd (in_double 1 ?s2)"
  have s3: "medFilterWin ?s3 = 3" "data ?s3 = [1, 100000000000000000, 1]"
    "oldestDataPoint ?s3 = 1" "totalSum ?s3 = 100000000000000000"
    using in_double_step [OF s2, of 1] by (simp_all add: fl_examples)
  let ?s4 = "snd (in_double 1 ?s3)"
  have s4: "medFilterWin ?s4 = 3" "data ?s4 = [1, 1, 1]"
    "oldestDataPoint ?s4 = 2" "totalSum ?s4 = 0"
    using in_double_step [OF s3, of 1] by (simp_all add: fl_examples)
  have "st = ?s4" by (simp add: st_def feed_double_Cons feed_double_Nil)
  then show "medFilterWin st = 3" "data st = [1, 1, 1]" "totalSum st = 0"
    using s4 by simp_all
qed

lemma diffSquareSum_double_zero:
  assumes "\<And>i. i < medFilterWin st \<Longrightarrow> data st ! i = mean"
  shows "diffSquareSum_double mean st = 0"
  unfolding diffSquareSum_double_def Let_def
  by (rule fold_fixed) (simp add: assms)

subsection \<open>Integers of fixed width\<close>

lemma sint_word_of_int_in_range:
  assumes "- (2 ^ (LENGTH('w :: len) - 1)) \<le> k" "k < 2 ^ (LENGTH('w) - 1)"
  shows "sint (word_of_int k :: 'w word) = k"
  using assms by (simp add: sint_sbintrunc' signed_take_bit_int_eq_self)

lemma uint_word_of_int_in_range:
  assumes "0 \<le> k" "k < 2 ^ LENGTH('w :: len)"
  shows "uint (word_of_int k :: 'w word) = k"
  using assms by (simp add: uint_word_of_int_eq take_bit_int_eq_self)



lemma sum_list_word_of_int:
  fixes f :: "'a \<Rightarrow> 'w :: len word"
  assumes "\<And>w :: 'w word. word_of_int (rd w) = w"
  shows "sum_list (map f xs) = word_of_int (sum_list (map (\<lambda>x. rd (f x)) xs))"
  by (induction xs) (simp_all add: assms)

lemma sdiv_nonneg:
  fixes k n :: int
  assumes "0 \<le> k" "0 < n"
  shows "k sdiv n = k div n"
  using assms by (cases "k = 0") (simp_all add: signed_divide_int_def)

lemma sdiv_neg:
  fixes k n :: int
  assumes "k < 0" "0 < n"
  shows "k sdiv n = - ((- k) div n)"
  using assms by (simp add: signed_divide_int_def)

lemma int_div_le_self:
  fixes k n :: int
  assumes "0 \<le> k" "0 < n"
  shows "k div n \<le> k"
  using zdiv_mono2 [of k 1 n] assms by simp

lemma sdiv_between:
  fixes k n b :: int
  assumes "0 < n" "- b \<le> k" "k < b"
  shows "- b \<le> k sdiv n" "k sdiv n < b"
proof -
  have b: "0 < b" using assms by simp
  show "- b \<le> k sdiv n"
  proof (cases "0 \<le> k")
    case True
    then have "0 \<le> k div n" using assms(1) by (simp add: pos_imp_zdiv_nonneg_iff)
    then show ?thesis using True assms(1) b by (simp add: sdiv_nonneg)
  next
    case False
    then have "(- k) div n \<le> - k" using assms(1) by (intro int_div_le_self) simp_all
    then show ?thesis using False assms by (simp add: sdiv_neg)
  qed
  show "k sdiv n < b"
  proof (cases "0 \<le> k")
    case True
    then have "k div n \<le> k" using assms(1) by (intro int_div_le_self) simp_all
    then show ?thesis using True assms by (simp add: sdiv_nonneg)
  next
    case False
    then have "0 \<le> (- k) div n" using assms(1) by (simp add: pos_imp_zdiv_nonneg_iff)
    then show ?thesis using False assms(1) b by (simp add: sdiv_neg)
  qed
qed

section \<open>The claims\<close>

text \<open>
  Claim C1. For every window size \<open>sz\<close> from 3 to 255, every seed and every sequence of
  inserted samples \<open>vs\<close> followed by a sample \<open>v\<close>: the value \<open>in\<close> returns for \<open>v\<close> is the
  element of rank \<open>sz div 2\<close> of the sorted window, and after that call \<open>getMin\<close> and
  \<open>getMax\<close> are the first and the last element of the sorted window, that is its least
  and its greatest element. The window is the list of the \<open>sz\<close> most recent samples of
  the stream (the seeds first), and it is sorted from scratch by \<open>sort\<close>.
\<close>

theorem C1_median_min_max_match_sort:
  fixes toSum :: "'a :: {linorder, zero} \<Rightarrow> 's :: comm_ring_1" and vs sz seed v
  assumes "3 \<le> sz" "sz \<le> 255"
  defines "st' \<equiv> snd (in' toSum v (feed toSum vs (MedianFilter toSum sz seed)))"
    and "w \<equiv> window (nat sz) seed (vs @ [v])"
  shows "fst (in' toSum v (feed toSum vs (MedianFilter toSum sz seed))) = sort w ! (nat sz div 2) \<and>
         getMin st' = sort w ! 0 \<and> getMax st' = sort w ! (nat sz - 1) \<and>
         getMin st' = Min (set w) \<and> getMax st' = Max (set w)"
proof -
  note c = constrain_id [OF assms(1,2)]
  have st': "st' = feed toSum (vs @ [v]) (MedianFilter toSum sz seed)"
    by (simp add: st'_def feed_snoc)
  have N: "medFilterWin st' = nat sz"
    by (simp add: st' feed_fields MedianFilter_eq c)
  have r: "0 < nat sz" "nat sz - 1 < nat sz" using assms by simp_all
  have med: "fst (in' toSum v (feed toSum vs (MedianFilter toSum sz seed))) = sort w ! (nat sz div 2)"
    using in'_returns_rank [of toSum v vs sz seed] by (simp add: c w_def)
  have lo: "getMin st' = sort w ! 0"
    using reached_rank [of 0 sz toSum "vs @ [v]" seed] r
    by (simp add: c w_def st' getMin_def ranked_def)
  have hi: "getMax st' = sort w ! (nat sz - 1)"
    using reached_rank [of "nat sz - 1" sz toSum "vs @ [v]" seed] r N
    by (simp add: c w_def st' getMax_def ranked_def)
  have ne: "sort w \<noteq> []" "length (sort w) = nat sz"
    using r by (auto simp: w_def simp flip: length_0_conv)
  have "sort w ! 0 = Min (set w)" "sort w ! (nat sz - 1) = Max (set w)"
    using sorted_first_Min [of "sort w"] sorted_last_Max [of "sort w"] ne by simp_all
  then show ?thesis using med lo hi by simp
qed

theorem C1_witness:
  "fst (in' (\<lambda>x. x) 2 (feed (\<lambda>x. x) [5, 1, 3, 3] (MedianFilter (\<lambda>x. x) 3 (0 :: int)) :: (int, int) MedianFilter)) = 3 \<and>
   sort (window 3 (0 :: int) [5, 1, 3, 3, 2]) ! 1 = 3 \<and>
   getMin (snd (in' (\<lambda>x. x) 2 (feed (\<lambda>x. x) [5, 1, 3, 3] (MedianFilter (\<lambda>x. x) 3 (0 :: int)) :: (int, int) MedianFilter))) = 2 \<and>
   getMax (snd (in' (\<lambda>x. x) 2 (feed (\<lambda>x. x) [5, 1, 3, 3] (MedianFilter (\<lambda>x. x) 3 (0 :: int)) :: (int, int) MedianFilter))) = 3 \<and>
   sort (window 3 (0 :: int) [5, 1, 3, 3, 2]) = [2, 3, 3]"
proof -
  have s: "sort (window 3 (0 :: int) [5, 1, 3, 3, 2]) = [2, 3, 3]"
    by (simp add: window_def)
  have h: "(3 :: int) \<le> 3" "(3 :: int) \<le> 255" by simp_all
  show ?thesis
    using C1_median_min_max_match_sort [OF h, of "\<lambda>x. x" 2 "[5, 1, 3, 3]" "0 :: int"]
    by (simp add: s)
qed

text \<open>
  Claim C2. After any sequence of insertions into a newly constructed filter,
  \<open>locationMap\<close> and \<open>sizeMap\<close> are permutations of the indices below \<open>medFilterWin\<close>,
  each is the inverse of the other (\<open>sizeMap[locationMap[k]] = k\<close> and
  \<open>locationMap[sizeMap[r]] = r\<close> for all indices \<open>k\<close> and \<open>r\<close>), and the samples read in the
  order of ranks, \<open>data[sizeMap[0]], data[sizeMap[1]], ...\<close>, are in ascending order.
\<close>

theorem C2_maps_inverse_and_sorted:
  fixes toSum :: "'a :: {linorder, zero} \<Rightarrow> 's :: comm_ring_1" and vs sz seed
  defines "st \<equiv> feed toSum vs (MedianFilter toSum sz seed)"
  shows "length (locationMap st) = medFilterWin st \<and> length (sizeMap st) = medFilterWin st \<and>
         length (data st) = medFilterWin st \<and>
         mset (locationMap st) = mset [0..<medFilterWin st] \<and>
         mset (sizeMap st) = mset [0..<medFilterWin st] \<and>
         (\<forall>k < medFilterWin st. sizeMap st ! (locationMap st ! k) = k) \<and>
         (\<forall>r < medFilterWin st. locationMap st ! (sizeMap st ! r) = r) \<and>
         sorted (map (\<lambda>r. data st ! (sizeMap st ! r)) [0..<medFilterWin st])"
proof -
  have inv: "filter_inv st"
    unfolding st_def by (rule filter_inv_reached)
  then have mi: "maps_inverse st" and rs: "rank_sorted st" and len: "length (data st) = medFilterWin st"
    by (simp_all add: filter_inv_def)
  note D = maps_inverseD [OF mi]
  have "sorted (map (ranked st) [0..<medFilterWin st])"
    using rs by (rule sorted_ranked)
  then have "sorted (map (\<lambda>r. data st ! (sizeMap st ! r)) [0..<medFilterWin st])"
    by (simp add: ranked_def [abs_def])
  then show ?thesis
    using D(1,2,4,6) len sizeMap_perm [OF mi] locationMap_perm [OF mi] by simp
qed

theorem C2_witness:
  "sizeMap (feed (\<lambda>x. x) [5, 1, 3, 3] (MedianFilter (\<lambda>x. x) 3 (0 :: int)) :: (int, int) MedianFilter) !
     (locationMap (feed (\<lambda>x. x) [5, 1, 3, 3] (MedianFilter (\<lambda>x. x) 3 0) :: (int, int) MedianFilter) ! 1) = 1 \<and>
   locationMap (feed (\<lambda>x. x) [5, 1, 3, 3] (MedianFilter (\<lambda>x. x) 3 (0 :: int)) :: (int, int) MedianFilter) !
     (sizeMap (feed (\<lambda>x. x) [5, 1, 3, 3] (MedianFilter (\<lambda>x. x) 3 0) :: (int, int) MedianFilter) ! 2) = 2 \<and>
   sorted (map (\<lambda>r. data (feed (\<lambda>x. x) [5, 1, 3, 3] (MedianFilter (\<lambda>x. x) 3 (0 :: int)) :: (int, int) MedianFilter) !
                   (sizeMap (feed (\<lambda>x. x) [5, 1, 3, 3] (MedianFilter (\<lambda>x. x) 3 0) :: (int, int) MedianFilter) ! r))
             [0..<3]) \<and>
   sizeMap (feed (\<lambda>x. x) [5, 1, 3, 3] (MedianFilter (\<lambda>x. x) 3 (0 :: int)) :: (int, int) MedianFilter) = [2, 0, 1] \<and>
   locationMap (feed (\<lambda>x. x) [5, 1, 3, 3] (MedianFilter (\<lambda>x. x) 3 (0 :: int)) :: (int, int) MedianFilter) = [1, 2, 0] \<and>
   data (feed (\<lambda>x. x) [5, 1, 3, 3] (MedianFilter (\<lambda>x. x) 3 (0 :: int)) :: (int, int) MedianFilter) = [3, 3, 1]"
proof -
  let ?st = "feed (\<lambda>x. x) [5, 1, 3, 3] (MedianFilter (\<lambda>x. x) 3 (0 :: int)) :: (int, int) MedianFilter"
  have N: "medFilterWin ?st = 3" by code_simp
  note inst = C2_maps_inverse_and_sorted [of "\<lambda>x. x" "[5, 1, 3, 3]" 3 "0 :: int", unfolded N]
  from inst have "\<forall>k<3. sizeMap ?st ! (locationMap ?st ! k) = k" by blast
  then have a: "sizeMap ?st ! (locationMap ?st ! 1) = 1" by simp
  from inst have "\<forall>r<3. locationMap ?st ! (sizeMap ?st ! r) = r" by blast
  then have b: "locationMap ?st ! (sizeMap ?st ! 2) = 2" by simp
  from inst have c: "sorted (map (\<lambda>r. data ?st ! (sizeMap ?st ! r)) [0..<3])" by blast
  have v: "sizeMap ?st = [2, 0, 1]" "locationMap ?st = [1, 2, 0]" "data ?st = [3, 3, 1]"
    by code_simp+
  show ?thesis
    by (intro conjI a b c v)
qed

text \<open>
  Claim C3 says that for an even window size the median returned is the lower of the two
  middle elements, the one of rank 1 in a window of 4. The code returns the element of
  rank \<open>medFilterWin >> 1\<close>, which is rank 2 in a window of 4: with window size 4 and seed
  0, after 1, 2, 3 the insertion of 4 returns 3, and the element of rank 1 of the window
  1, 2, 3, 4 is 2.
\<close>

theorem C3_lower_middle_counterexample:
  "fst (in' (\<lambda>x. x) 4 (feed (\<lambda>x. x) [1, 2, 3] (MedianFilter (\<lambda>x. x) 4 (0 :: int)) :: (int, int) MedianFilter))
     \<noteq> sort (window 4 (0 :: int) [1, 2, 3, 4]) ! 1"
proof -
  have "fst (in' (\<lambda>x. x) 4 (feed (\<lambda>x. x) [1, 2, 3] (MedianFilter (\<lambda>x. x) 4 (0 :: int)) :: (int, int) MedianFilter)) = 3"
    by code_simp
  moreover have "sort (window 4 (0 :: int) [1, 2, 3, 4]) ! 1 = 2"
    by (simp add: window_def)
  ultimately show ?thesis by simp
qed

text \<open>
  Claim C3 as amended. For an even window size \<open>sz\<close> from 3 to 255 the value returned by
  \<open>in\<close>, and by \<open>out\<close> after it, is the element of rank \<open>sz div 2\<close> of the sorted window,
  which is the upper of the two middle ranks \<open>(sz - 1) div 2\<close> and \<open>sz div 2\<close>; it is an
  element of the window and no average.
\<close>

theorem C3_even_window_upper_middle:
  fixes toSum :: "'a :: {linorder, zero} \<Rightarrow> 's :: comm_ring_1" and vs sz seed v
  assumes "3 \<le> sz" "sz \<le> 255" "even sz"
  defines "w \<equiv> window (nat sz) seed (vs @ [v])"
  shows "fst (in' toSum v (feed toSum vs (MedianFilter toSum sz seed))) = sort w ! (nat sz div 2) \<and>
         fst (out (snd (in' toSum v (feed toSum vs (MedianFilter toSum sz seed))))) = sort w ! (nat sz div 2) \<and>
         nat sz div 2 = Suc ((nat sz - 1) div 2)"
proof -
  note c = constrain_id [OF assms(1,2)]
  have med: "fst (in' toSum v (feed toSum vs (MedianFilter toSum sz seed))) = sort w ! (nat sz div 2)"
    using in'_returns_rank [of toSum v vs sz seed] by (simp add: c w_def)
  have "fst (out (snd (in' toSum v (feed toSum vs (MedianFilter toSum sz seed))))) =
        fst (in' toSum v (feed toSum vs (MedianFilter toSum sz seed)))"
    by (simp add: out_def in'_frame)
  moreover have "nat sz div 2 = Suc ((nat sz - 1) div 2)"
  proof -
    have "even (nat sz)" "0 < nat sz" using assms by (simp_all add: even_nat_iff)
    then obtain m where "nat sz = 2 * Suc m" by (cases "nat sz div 2") (auto elim!: evenE)
    then show ?thesis by simp
  qed
  ultimately show ?thesis using med by simp
qed

theorem C3_witness:
  "fst (in' (\<lambda>x. x) 4 (feed (\<lambda>x. x) [1, 2, 3] (MedianFilter (\<lambda>x. x) 4 (0 :: int)) :: (int, int) MedianFilter)) = 3 \<and>
   fst (out (snd (in' (\<lambda>x. x) 4 (feed (\<lambda>x. x) [1, 2, 3] (MedianFilter (\<lambda>x. x) 4 (0 :: int)) :: (int, int) MedianFilter)))) = 3 \<and>
   sort (window 4 (0 :: int) [1, 2, 3, 4]) = [1, 2, 3, 4] \<and>
   sort (window 4 (0 :: int) [1, 2, 3, 4]) ! 2 = 3 \<and>
   (3 :: int) \<noteq> (2 + 3) div 2"
proof -
  have s: "sort (window 4 (0 :: int) [1, 2, 3, 4]) = [1, 2, 3, 4]"
    by (simp add: window_def)
  have h: "(3 :: int) \<le> 4" "(4 :: int) \<le> 255" "even (4 :: int)" by simp_all
  show ?thesis
    using C3_even_window_upper_middle [OF h, of "\<lambda>x. x" 4 "[1, 2, 3]" "0 :: int"]
    by (simp add: s)
qed

text \<open>
  Claim C4 says that 0.5 is added to the square root before the truncation. In
  \<open>getStdDev\<close> the parentheses put the 0.5 under the root. With window size 3 and seed
  0, after the insertion of 3 the window is 0, 3, 0, the mean is 1 and the squared
  differences sum to 6: \<open>getStdDev\<close> returns the truncation of the root of 3.5, which is
  1, where the computation that the claim describes returns the truncation of the root
  of 3 plus 0.5, which is 2.
\<close>

theorem C4_half_added_under_the_root:
  "getStdDev_int (\<lambda>x. x) (snd (in' (\<lambda>x. x) 3 (MedianFilter (\<lambda>x. x) 3 (0 :: int)))) = 1 \<and>
   StandardDeviation_spec (\<lambda>x. x) (snd (in' (\<lambda>x. x) 3 (MedianFilter (\<lambda>x. x) 3 (0 :: int)))) = 2 \<and>
   data (snd (in' (\<lambda>x. x) 3 (MedianFilter (\<lambda>x. x) 3 (0 :: int)) :: int \<times> (int, int) MedianFilter)) = [0, 3, 0]"
proof -
  let ?st = "snd (in' (\<lambda>x. x) 3 (MedianFilter (\<lambda>x. x) 3 (0 :: int)) :: int \<times> (int, int) MedianFilter)"
  have N: "medFilterWin ?st = 3" and d: "data ?st = [0, 3, 0]" and m: "getMean_int ?st = 1"
    by code_simp+
  have s: "diffSquareSum (\<lambda>x. x) 1 ?st = 6"
    by code_simp
  have a: "truncate_double (sqrt (7 / 2)) = 1"
    using sqrt_7_2 by (simp add: truncate_double_def floor_eq_iff)
  have b: "truncate_double (sqrt 3 + 1 / 2) = 2"
    using sqrt_3 by (simp add: truncate_double_def floor_eq_iff)
  have "getStdDev_int (\<lambda>x. x) ?st = 1"
    unfolding getStdDev_int_def Let_def m s N using a by simp
  moreover have "StandardDeviation_spec (\<lambda>x. x) ?st = 2"
    unfolding StandardDeviation_spec_def Let_def m s N using b by simp
  ultimately show ?thesis using d by simp
qed

text \<open>
  Claim C5 says that after every insertion \<open>totalSum\<close> is exactly the sum of the window
  and \<open>getMean\<close> that sum divided by the window size, for every accumulator type. With
  an accumulator of type \<open>double\<close> each update \<open>totalSum += value - oldest\<close> rounds twice:
  with window size 3 and seed 0, after the insertion of 1e17, 1, 1, 1 the window is
  1, 1, 1 and \<open>totalSum\<close> is 0, so \<open>getMean\<close> returns 0.
\<close>

theorem C5_double_sum_drifts_counterexample:
  "data (feed_double [100000000000000000, 1, 1, 1] (MedianFilter_double 3 0)) = [1, 1, 1] \<and>
   totalSum (feed_double [100000000000000000, 1, 1, 1] (MedianFilter_double 3 0)) = 0 \<and>
   totalSum (feed_double [100000000000000000, 1, 1, 1] (MedianFilter_double 3 0)) \<noteq>
     sum_list (data (feed_double [100000000000000000, 1, 1, 1] (MedianFilter_double 3 0))) \<and>
   getMean_double (feed_double [100000000000000000, 1, 1, 1] (MedianFilter_double 3 0)) = 0 \<and>
   getMean_double (feed_double [100000000000000000, 1, 1, 1] (MedianFilter_double 3 0)) \<noteq>
     sum_list (data (feed_double [100000000000000000, 1, 1, 1] (MedianFilter_double 3 0))) / 3"
  by (simp add: drift_state getMean_double_def)

text \<open>
  Claim C5 as amended, for an integer accumulator. A call of \<open>in\<close> changes \<open>totalSum\<close> by
  the new sample minus the sample it overwrites. After any sequence of insertions into
  a newly constructed filter \<open>totalSum\<close> is the sum, in the accumulator type, of the
  samples in \<open>data\<close>, which is the sum of the window: in any commutative ring, and so
  modulo \<open>2 ^ w\<close> for an accumulator of \<open>w\<close> bits. \<open>getMean\<close> is that sum divided by the
  window size with truncation, for a signed and for an unsigned accumulator; and when
  the sum of the window, taken over the integers, is in the range of the accumulator
  type, \<open>getMean\<close> is that integer sum divided by the window size.
\<close>

theorem C5_integer_sum_and_mean:
  fixes toSum :: "'a :: {linorder, zero} \<Rightarrow> 's :: comm_ring_1"
    and toSumW :: "'b :: {linorder, zero} \<Rightarrow> 'w :: len word"
    and vs sz seed vsW seedW
  defines "st \<equiv> feed toSum vs (MedianFilter toSum sz seed)"
    and "stW \<equiv> feed toSumW vsW (MedianFilter toSumW sz seedW)"
    and "w \<equiv> window (nat (constrain sz 3 255)) seedW vsW"
  shows "totalSum (snd (in' toSum v st)) =
           totalSum st + (toSum v - toSum (data st ! oldestDataPoint st)) \<and>
         totalSum st = sum_list (map toSum (data st)) \<and>
         totalSum st = sum_list (map toSum (window (nat (constrain sz 3 255)) seed vs)) \<and>
         getMean_word sint stW =
           word_of_int (sint (sum_list (map toSumW w)) sdiv constrain sz 3 255) \<and>
         getMean_word uint stW =
           word_of_int (uint (sum_list (map toSumW w)) sdiv constrain sz 3 255) \<and>
         (- (2 ^ (LENGTH('w) - 1)) \<le> sum_list (map (\<lambda>x. sint (toSumW x)) w) \<and>
          sum_list (map (\<lambda>x. sint (toSumW x)) w) < 2 ^ (LENGTH('w) - 1) \<longrightarrow>
            sint (getMean_word sint stW) =
              sum_list (map (\<lambda>x. sint (toSumW x)) w) sdiv constrain sz 3 255) \<and>
         (sum_list (map (\<lambda>x. uint (toSumW x)) w) < 2 ^ LENGTH('w) \<longrightarrow>
            uint (getMean_word uint stW) =
              sum_list (map (\<lambda>x. uint (toSumW x)) w) div constrain sz 3 255)"
proof -
  let ?N = "nat (constrain sz 3 255)"
  have "3 \<le> ?N" by (rule constrain_window)
  then have i: "int ?N = constrain sz 3 255" and p: "0 < constrain sz 3 255" by simp_all
  have t: "totalSum (feed f xs (MedianFilter f sz x)) =
             sum_list (map f (window ?N x xs))"
    for f :: "'d :: {linorder, zero} \<Rightarrow> 't :: comm_ring_1" and xs x
    using sum_list_cong_mset [OF feed_mset, of f f xs sz x] by (simp only: totalSum_feed)
  have N: "medFilterWin stW = ?N"
    by (simp add: stW_def feed_fields MedianFilter_eq)
  have tW: "totalSum stW = sum_list (map toSumW w)"
    unfolding stW_def w_def by (rule t)
  have m: "getMean_word rd stW = word_of_int (rd (sum_list (map toSumW w)) sdiv constrain sz 3 255)"
    for rd
    by (simp only: getMean_word_def N tW i)
  have sg: "sint (getMean_word sint stW) = sum_list (map (\<lambda>x. sint (toSumW x)) w) sdiv constrain sz 3 255"
    if r: "- (2 ^ (LENGTH('w) - 1)) \<le> sum_list (map (\<lambda>x. sint (toSumW x)) w)"
      "sum_list (map (\<lambda>x. sint (toSumW x)) w) < 2 ^ (LENGTH('w) - 1)"
  proof -
    let ?K = "sum_list (map (\<lambda>x. sint (toSumW x)) w)"
    have "sum_list (map toSumW w) = word_of_int ?K"
      by (rule sum_list_word_of_int) simp
    then have "sint (sum_list (map toSumW w)) = ?K"
      using r by (simp only: sint_word_of_int_in_range)
    then have "getMean_word sint stW = word_of_int (?K sdiv constrain sz 3 255)"
      by (simp only: m)
    then show ?thesis
      using sdiv_between [OF p r] by (simp only: sint_word_of_int_in_range)
  qed
  have us: "uint (getMean_word uint stW) = sum_list (map (\<lambda>x. uint (toSumW x)) w) div constrain sz 3 255"
    if r: "sum_list (map (\<lambda>x. uint (toSumW x)) w) < 2 ^ LENGTH('w)"
  proof -
    let ?K = "sum_list (map (\<lambda>x. uint (toSumW x)) w)"
    have K: "0 \<le> ?K" by (rule sum_list_nonneg) auto
    have "sum_list (map toSumW w) = word_of_int ?K"
      by (rule sum_list_word_of_int) simp
    then have "uint (sum_list (map toSumW w)) = ?K"
      using K r by (simp only: uint_word_of_int_in_range)
    then have g: "getMean_word uint stW = word_of_int (?K div constrain sz 3 255)"
      using K p by (simp only: m sdiv_nonneg)
    have "0 \<le> ?K div constrain sz 3 255" "?K div constrain sz 3 255 \<le> ?K"
      using K p by (simp_all add: pos_imp_zdiv_nonneg_iff int_div_le_self)
    then show ?thesis
      using r unfolding g by (intro uint_word_of_int_in_range) simp_all
  qed
  have "totalSum (snd (in' toSum v st)) =
           totalSum st + (toSum v - toSum (data st ! oldestDataPoint st))"
    by (simp add: in'_frame)
  moreover have "totalSum st = sum_list (map toSum (data st))"
    unfolding st_def by (rule totalSum_feed)
  moreover have "totalSum st = sum_list (map toSum (window ?N seed vs))"
    unfolding st_def by (rule t)
  ultimately show ?thesis
    using m [of sint] m [of uint] sg us by blast
qed

theorem C5_witness:
  "sint (getMean_word sint
     (feed word_of_int [- 7, 2, - 3] (MedianFilter word_of_int 3 (0 :: int)) :: (int, 16 word) MedianFilter)) = - 2 \<and>
   window 3 (0 :: int) [- 7, 2, - 3] = [- 7, 2, - 3] \<and>
   uint (getMean_word uint
     (feed (\<lambda>x. x) [7, 2, 3] (MedianFilter (\<lambda>x. x) 3 (0 :: 16 word)))) = 4 \<and>
   window 3 (0 :: 16 word) [7, 2, 3] = [7, 2, 3]"
proof -
  have c: "constrain 3 3 255 = 3" by (simp add: constrain_def)
  have w: "window 3 (0 :: int) [- 7, 2, - 3] = [- 7, 2, - 3]"
    "window 3 (0 :: 16 word) [7, 2, 3] = [7, 2, 3]"
    by (simp_all add: window_def)
  have s: "sum_list (map (\<lambda>x. sint (word_of_int x :: 16 word)) [- 7, 2, - 3]) = - 8"
    by simp
  have u: "sum_list (map (\<lambda>x. uint x) [7, 2, 3 :: 16 word]) = 12"
    by simp
  have a: "sint (getMean_word sint
     (feed word_of_int [- 7, 2, - 3] (MedianFilter word_of_int 3 (0 :: int)) :: (int, 16 word) MedianFilter)) = - 2"
    using C5_integer_sum_and_mean [where toSumW = "word_of_int :: int \<Rightarrow> 16 word" and sz = 3
        and seedW = 0 and vsW = "[- 7, 2, - 3]" and toSum = "\<lambda>x :: int. x" and v = 0
        and vs = "[]" and seed = 0]
    by (simp add: c w s signed_divide_int_def)
  have b: "uint (getMean_word uint
     (feed (\<lambda>x. x) [7, 2, 3] (MedianFilter (\<lambda>x. x) 3 (0 :: 16 word)))) = 4"
    using C5_integer_sum_and_mean [where toSumW = "\<lambda>x :: 16 word. x" and sz = 3
        and seedW = 0 and vsW = "[7, 2, 3]" and toSum = "\<lambda>x :: int. x" and v = 0
        and vs = "[]" and seed = 0]
    by (simp add: c w u)
  show ?thesis
    by (intro conjI a b w)
qed

text \<open>
  Claim C6. Let a sample \<open>v\<close> be inserted after any sequence of insertions, \<open>p\<close> being the
  slot it is written to. The written slot does not pass a slot that holds a sample
  equal to \<open>v\<close>: it is below that slot in rank after the call exactly when it was before.
  And two other slots holding equal samples keep their order of ranks.
\<close>

theorem C6_ties_keep_rank_order:
  fixes toSum :: "'a :: {linorder, zero} \<Rightarrow> 's :: comm_ring_1" and vs sz seed v
  defines "st \<equiv> feed toSum vs (MedianFilter toSum sz seed)"
  defines "st' \<equiv> snd (in' toSum v st)" and "p \<equiv> oldestDataPoint st"
  shows "(\<forall>j < medFilterWin st. j \<noteq> p \<and> data st ! j = v \<longrightarrow>
            (locationMap st' ! p < locationMap st' ! j \<longleftrightarrow> locationMap st ! p < locationMap st ! j)) \<and>
         (\<forall>j < medFilterWin st. \<forall>k < medFilterWin st.
            j \<noteq> p \<and> k \<noteq> p \<and> data st ! j = data st ! k \<longrightarrow>
            (locationMap st' ! j < locationMap st' ! k \<longleftrightarrow> locationMap st ! j < locationMap st ! k))"
proof -
  have inv: "filter_inv st" unfolding st_def by (rule filter_inv_reached)
  show ?thesis
    unfolding st'_def p_def
    using in'_order_kept(1) [OF inv, of _ _ toSum v] in'_order_kept(2) [OF inv, of _ v toSum]
    by blast
qed

theorem C6_witness:
  "data (feed (\<lambda>x. x) [2, 2] (MedianFilter (\<lambda>x. x) 4 (0 :: int)) :: (int, int) MedianFilter) = [0, 0, 2, 2] \<and>
   oldestDataPoint (feed (\<lambda>x. x) [2, 2] (MedianFilter (\<lambda>x. x) 4 (0 :: int)) :: (int, int) MedianFilter) = 0 \<and>
   locationMap (feed (\<lambda>x. x) [2, 2] (MedianFilter (\<lambda>x. x) 4 (0 :: int)) :: (int, int) MedianFilter) = [0, 1, 3, 2] \<and>
   locationMap (snd (in' (\<lambda>x. x) 2 (feed (\<lambda>x. x) [2, 2] (MedianFilter (\<lambda>x. x) 4 (0 :: int)) :: (int, int) MedianFilter)))
     = [1, 0, 3, 2] \<and>
   (locationMap (snd (in' (\<lambda>x. x) 2 (feed (\<lambda>x. x) [2, 2] (MedianFilter (\<lambda>x. x) 4 (0 :: int)) :: (int, int) MedianFilter))) ! 0
      < locationMap (snd (in' (\<lambda>x. x) 2 (feed (\<lambda>x. x) [2, 2] (MedianFilter (\<lambda>x. x) 4 (0 :: int)) :: (int, int) MedianFilter))) ! 2) =
   (locationMap (feed (\<lambda>x. x) [2, 2] (MedianFilter (\<lambda>x. x) 4 (0 :: int)) :: (int, int) MedianFilter) ! 0
      < locationMap (feed (\<lambda>x. x) [2, 2] (MedianFilter (\<lambda>x. x) 4 (0 :: int)) :: (int, int) MedianFilter) ! 2) \<and>
   (locationMap (snd (in' (\<lambda>x. x) 2 (feed (\<lambda>x. x) [2, 2] (MedianFilter (\<lambda>x. x) 4 (0 :: int)) :: (int, int) MedianFilter))) ! 2
      < locationMap (snd (in' (\<lambda>x. x) 2 (feed (\<lambda>x. x) [2, 2] (MedianFilter (\<lambda>x. x) 4 (0 :: int)) :: (int, int) MedianFilter))) ! 3) =
   (locationMap (feed (\<lambda>x. x) [2, 2] (MedianFilter (\<lambda>x. x) 4 (0 :: int)) :: (int, int) MedianFilter) ! 2
      < locationMap (feed (\<lambda>x. x) [2, 2] (MedianFilter (\<lambda>x. x) 4 (0 :: int)) :: (int, int) MedianFilter) ! 3)"
proof -
  let ?st = "feed (\<lambda>x. x) [2, 2] (MedianFilter (\<lambda>x. x) 4 (0 :: int)) :: (int, int) MedianFilter"
  let ?st' = "snd (in' (\<lambda>x. x) 2 ?st)"
  have N: "medFilterWin ?st = 4" and p: "oldestDataPoint ?st = 0" and d: "data ?st = [0, 0, 2, 2]"
    and l: "locationMap ?st = [0, 1, 3, 2]"
    by code_simp+
  have l': "locationMap ?st' = [1, 0, 3, 2]"
    by code_simp
  note inst = C6_ties_keep_rank_order [of "\<lambda>x. x" "[2, 2]" 4 "0 :: int" 2, unfolded N p]
  have e: "data ?st ! 2 = 2" "data ?st ! 3 = 2" by (simp_all add: d)
  from inst have "\<forall>j<4. j \<noteq> 0 \<and> data ?st ! j = 2 \<longrightarrow>
      (locationMap ?st' ! 0 < locationMap ?st' ! j) = (locationMap ?st ! 0 < locationMap ?st ! j)"
    by blast
  then have a: "(locationMap ?st' ! 0 < locationMap ?st' ! 2) = (locationMap ?st ! 0 < locationMap ?st ! 2)"
    using e by simp
  from inst have "\<forall>j<4. \<forall>k<4. j \<noteq> 0 \<and> k \<noteq> 0 \<and> data ?st ! j = data ?st ! k \<longrightarrow>
      (locationMap ?st' ! j < locationMap ?st' ! k) = (locationMap ?st ! j < locationMap ?st ! k)"
    by blast
  then have b: "(locationMap ?st' ! 2 < locationMap ?st' ! 3) = (locationMap ?st ! 2 < locationMap ?st ! 3)"
    using e by simp
  show ?thesis
    by (intro conjI d p l l' a b)
qed

text \<open>
  Claim C7. The constructor clamps the requested window size into the range from 3 to
  255 and returns a filter for every requested size: the window size of the filter is the
  requested size bounded below by 3 and above by 255, the arrays have that length, a
  request for size 1 gives a window of 3 and a request for size 300 gives a window of 255.
\<close>

theorem C7_window_size_clamped:
  "medFilterWin (MedianFilter toSum sz seed) = nat (max 3 (min 255 sz)) \<and>
   3 \<le> medFilterWin (MedianFilter toSum sz seed) \<and>
   medFilterWin (MedianFilter toSum sz seed) \<le> 255 \<and>
   length (data (MedianFilter toSum sz seed)) = medFilterWin (MedianFilter toSum sz seed) \<and>
   medFilterWin (MedianFilter toSum 1 seed) = 3 \<and>
   medFilterWin (MedianFilter toSum 300 seed) = 255"
  by (auto simp: MedianFilter_eq constrain_def)




text \<open>
  Claim C9. After any sequence of insertions \<open>out\<close> returns the value the last call of
  \<open>in\<close> returned, and the seed on a newly constructed filter; and it leaves the
  state as it was: \<open>data\<close>, \<open>locationMap\<close>, \<open>sizeMap\<close>, \<open>oldestDataPoint\<close> and \<open>totalSum\<close>
  are unchanged.
\<close>

theorem C9_out_returns_last_median:
  "out (snd (in' toSum v (feed toSum vs (MedianFilter toSum sz seed)))) =
     (fst (in' toSum v (feed toSum vs (MedianFilter toSum sz seed))),
      snd (in' toSum v (feed toSum vs (MedianFilter toSum sz seed)))) \<and>
   out (MedianFilter toSum sz seed) = (seed, MedianFilter toSum sz seed) \<and>
   snd (out st) = st \<and>
   data (snd (out st)) = data st \<and> locationMap (snd (out st)) = locationMap st \<and>
   sizeMap (snd (out st)) = sizeMap st \<and> oldestDataPoint (snd (out st)) = oldestDataPoint st \<and>
   totalSum (snd (out st)) = totalSum st"
proof -
  let ?N = "nat (constrain sz 3 255)"
  have "3 \<le> ?N" by (rule constrain_window)
  then have "?N div 2 < ?N" by simp
  then have "out (MedianFilter toSum sz seed) = (seed, MedianFilter toSum sz seed)"
    by (simp add: out_def MedianFilter_eq)
  then show ?thesis
    by (simp add: out_def in'_frame)
qed

text \<open>
  Claim C10 says that \<open>getStdDev\<close> returns the square root of 0.5, converted to the
  accumulator type, whenever all samples of the window are equal. With an accumulator
  of type \<open>double\<close>, window size 3 and seed 0, after the insertion of 1e17, 1, 1, 1 the
  window is 1, 1, 1 and \<open>totalSum\<close> is 0: the mean is 0, the squared differences sum to 3
  and \<open>getStdDev\<close> returns the double nearest to the square root of 2.
\<close>

theorem C10_double_constant_window_counterexample:
  "data (feed_double [100000000000000000, 1, 1, 1] (MedianFilter_double 3 0)) = [1, 1, 1] \<and>
   getStdDev_double (feed_double [100000000000000000, 1, 1, 1] (MedianFilter_double 3 0)) = fl (sqrt 2) \<and>
   1 < getStdDev_double (feed_double [100000000000000000, 1, 1, 1] (MedianFilter_double 3 0)) \<and>
   fl (sqrt 0.5) < 1 \<and>
   getStdDev_double (feed_double [100000000000000000, 1, 1, 1] (MedianFilter_double 3 0)) \<noteq> fl (sqrt 0.5)"
proof -
  let ?st = "feed_double [100000000000000000, 1, 1, 1] (MedianFilter_double 3 0)"
  note d = drift_state
  have m: "getMean_double ?st = 0"
    by (simp add: getMean_double_def d)
  have u: "[0..<3] = [0, 1, 2]" by code_simp
  have s: "diffSquareSum_double 0 ?st = 3"
    by (simp add: diffSquareSum_double_def d u fl_examples)
  have g: "getStdDev_double ?st = fl (sqrt 2)"
    by (simp add: getStdDev_double_def m s d fl_examples)
  have h: "fl (sqrt 0.5) < 1" using fl_sqrt_half(2) by simp
  show ?thesis
    using d(2) g fl_sqrt_two h by simp
qed

text \<open>
  Claim C10 as amended. When all samples of the window are equal to \<open>c\<close> and \<open>getMean\<close>
  returns \<open>c\<close>, then \<open>getStdDev\<close> returns the square root of 0.5 converted to the
  accumulator type: 0 for a signed and for an unsigned integer accumulator, after any
  sequence of insertions; and for an accumulator of type \<open>double\<close> the double nearest to
  the square root of 0.5, which is not 0, in every state whose \<open>data\<close> has the length
  \<open>medFilterWin\<close>, as it has after any sequence of insertions.
\<close>

theorem C10_constant_window_exact_mean:
  fixes toSumW :: "'a :: {linorder, zero} \<Rightarrow> 'w :: len word" and vs sz seed
  defines "stW \<equiv> feed toSumW vs (MedianFilter toSumW sz seed)"
  shows "((\<forall>x \<in> set (data stW). x = c) \<and> getMean_word sint stW = toSumW c \<longrightarrow>
            getStdDev_word sint toSumW stW = 0) \<and>
         ((\<forall>x \<in> set (data stW). x = c) \<and> getMean_word uint stW = toSumW c \<longrightarrow>
            getStdDev_word uint toSumW stW = 0) \<and>
         (length (data stD) = medFilterWin stD \<and> 3 \<le> medFilterWin stD \<and>
          (\<forall>x \<in> set (data stD). x = d) \<and> getMean_double stD = d \<longrightarrow>
            getStdDev_double stD = fl (sqrt 0.5)) \<and>
         length (data (feed_double vsD (MedianFilter_double sz seedD))) =
           medFilterWin (feed_double vsD (MedianFilter_double sz seedD)) \<and>
         3 \<le> medFilterWin (feed_double vsD (MedianFilter_double sz seedD)) \<and>
         truncate_double (fl (sqrt 0.5)) = 0 \<and> 0 < fl (sqrt 0.5)"
proof -
  have "filter_inv stW" unfolding stW_def by (rule filter_inv_reached)
  then have lW: "length (data stW) = medFilterWin stW" by (simp add: filter_inv_def)
  have lD: "length (data (feed_double vsD (MedianFilter_double sz seedD))) =
             medFilterWin (feed_double vsD (MedianFilter_double sz seedD))"
    "3 \<le> medFilterWin (feed_double vsD (MedianFilter_double sz seedD))"
    using constrain_window(1) [of sz] by (simp_all add: feed_double_fields MedianFilter_double_eq)
  have w: "getStdDev_word rd toSumW stW = 0"
    if c: "\<forall>x \<in> set (data stW). x = c" and m: "getMean_word rd stW = toSumW c" and z: "rd 0 = 0"
    for rd
  proof -
    have "data stW ! i = c" if "i < medFilterWin stW" for i
      using c lW that nth_mem [of i "data stW"] by simp
    then have "diffSquareSum toSumW (toSumW c) stW = 0"
      by (intro diffSquareSum_zero) simp
    then show ?thesis
      by (simp add: getStdDev_word_def m z fl_examples truncate_fl_sqrt_half)
  qed
  have db: "getStdDev_double stD = fl (sqrt 0.5)"
    if l: "length (data stD) = medFilterWin stD"
      and c: "\<forall>x \<in> set (data stD). x = d" and m: "getMean_double stD = d"
  proof -
    have "data stD ! i = d" if "i < medFilterWin stD" for i
      using c l that nth_mem [of i "data stD"] by simp
    then have "diffSquareSum_double d stD = 0"
      by (intro diffSquareSum_double_zero) simp
    then show ?thesis
      by (simp add: getStdDev_double_def m fl_examples)
  qed
  show ?thesis
    using w [of sint] w [of uint] db lD truncate_fl_sqrt_half fl_sqrt_half(1) by simp
qed

theorem C10_witness:
  "getStdDev_word sint word_of_int
     (feed word_of_int [7, 7, 7] (MedianFilter word_of_int 3 (0 :: int)) :: (int, 16 word) MedianFilter) = 0 \<and>
   getStdDev_word uint (\<lambda>x. x) (feed (\<lambda>x. x) [7, 7, 7] (MedianFilter (\<lambda>x. x) 3 (0 :: 16 word))) = 0 \<and>
   getStdDev_double (feed_double [] (MedianFilter_double 3 2)) = fl (sqrt 0.5) \<and>
   data (feed word_of_int [7, 7, 7] (MedianFilter word_of_int 3 (0 :: int)) :: (int, 16 word) MedianFilter) = [7, 7, 7] \<and>
   data (feed_double [] (MedianFilter_double 3 2)) = [2, 2, 2]"
proof -
  let ?S = "feed word_of_int [7, 7, 7] (MedianFilter word_of_int 3 (0 :: int)) :: (int, 16 word) MedianFilter"
  let ?U = "feed (\<lambda>x. x) [7, 7, 7] (MedianFilter (\<lambda>x. x) 3 (0 :: 16 word))"
  let ?D = "feed_double [] (MedianFilter_double 3 2)"
  have c: "nat (constrain 3 3 255) = 3" by (simp add: constrain_def)
  have wS: "\<forall>x \<in> set (window (nat (constrain 3 3 255)) (0 :: int) [7, 7, 7]). x = 7"
    and wU: "\<forall>x \<in> set (window (nat (constrain 3 3 255)) (0 :: 16 word) [7, 7, 7]). x = 7"
    by (simp_all add: c window_def)
  note S = constant_window [OF wS, of "word_of_int :: int \<Rightarrow> 16 word", unfolded c]
  note U = constant_window [OF wU, of "\<lambda>x. x", unfolded c]
  have dS: "data ?S = [7, 7, 7]" and dU: "data ?U = [7, 7, 7]"
    by (simp_all add: S U numeral_3_eq_3)
  have mS: "getMean_word sint ?S = word_of_int 7"
    by (simp add: getMean_word_def S signed_divide_int_def)
  have mU: "getMean_word uint ?U = 7"
    by (simp add: getMean_word_def U signed_divide_int_def)
  have dD: "data ?D = [2, 2, 2]" and nD: "medFilterWin ?D = 3" and tD: "totalSum ?D = fl 6"
    by (simp_all add: feed_double_Nil MedianFilter_double_eq c numeral_3_eq_3)
  have f6: "fl 6 = 6" using fl_eq [of 2 6] by (simp add: round_even_def powr_neg_numeral)
  have mD: "getMean_double ?D = 2"
    by (simp add: getMean_double_def nD tD f6 fl_examples)
  note T = C10_constant_window_exact_mean [where toSumW = "word_of_int :: int \<Rightarrow> 16 word"
      and vs = "[7, 7, 7]" and sz = 3 and seed = 0 and c = 7 and vsD = "[]" and seedD = 2 and d = 2
      and stD = "feed_double [] (MedianFilter_double 3 2)"]
  note T' = C10_constant_window_exact_mean [where toSumW = "\<lambda>x :: 16 word. x"
      and vs = "[7, 7, 7]" and sz = 3 and seed = 0 and c = 7 and vsD = "[]" and seedD = 2 and d = 2
      and stD = "feed_double [] (MedianFilter_double 3 2)"]
  have a: "getStdDev_word sint word_of_int ?S = 0"
    using T dS mS by simp
  have b: "getStdDev_word uint (\<lambda>x. x) ?U = 0"
    using T' dU mU by simp
  have e: "getStdDev_double ?D = fl (sqrt 0.5)"
    using T dD mD nD by simp
  show ?thesis
    by (intro conjI a b e dS dD)
qed

end
